theory Spec2Isabelle
  imports Complex_Main "HOL-Library.Word"
begin

section \<open>Core upstream / downstream functionality of pyflwdir (core.py)\<close>

text \<open>
  Shallow embedding of \<^verbatim>\<open>src/pyflwdir/core.py\<close>.

  Arrays are lists. Sparse cell indices are \<^verbatim>\<open>uint32\<close> in the source; they are modelled
  as natural numbers, and a store into a \<^verbatim>\<open>uint32\<close> array is written with the cast
  \<open>u32\<close>. The missing value \<^verbatim>\<open>_mv = np.uint32(-1)\<close> is \<open>mv\<close>. The per-cell counter
  of upstream neighbours is \<^verbatim>\<open>uint8\<close> and is modelled as an 8-bit word, whose addition
  wraps around. Dense raster indices are signed (\<^verbatim>\<open>intp\<close>) and are modelled as \<open>int\<close>.
  Every raise of the source is a value \<open>Inl e\<close> of the result. A \<^verbatim>\<open>while True\<close>
  loop that may run forever is a partial function into \<open>option\<close>, where \<open>None\<close>
  stands for not returning. Names that start with an underscore in the source carry the
  prefix \<open>p_\<close> here.

  The functions are compiled with \<^verbatim>\<open>@njit\<close>, which does not check array bounds.
  \<^item> In \<^verbatim>\<open>n_upstream\<close> and \<^verbatim>\<open>_idxs_us\<close> the accesses that can leave an array are
    writes (and the read of a counter whose only use is such a write). The compiled code
    goes on and returns its arrays, so the model does the same: a write to a position
    outside the array leaves the array as it is. The upstream table is one block of
    \<open>n * d\<close> cells in row-major order, so the write \<^verbatim>\<open>idxs_us[i_ds][ii] = i\<close> goes to
    the cell \<open>i_ds * d + ii\<close> of the block, in another row when \<open>ii \<ge> d\<close>. What a write
    outside an array does to other memory is not modelled.
  \<^item> In the other functions a read outside an array has no value that the source
    determines. There the model returns \<open>Inl IndexError\<close>, which is what the source
    raises when it runs uncompiled; the properties below are stated for inputs that keep
    these reads inside the arrays.
\<close>

datatype error =
    IndexError            \<comment> \<open>an array index out of range\<close>
  | EmptyReduction        \<comment> \<open>\<^verbatim>\<open>np.max\<close> of an empty array (a ValueError)\<close>
  | IndexOutOfBounds      \<comment> \<open>\<^verbatim>\<open>ValueError("Index out of bounds")\<close>\<close>
  | InvalidSize           \<comment> \<open>\<^verbatim>\<open>ValueError("... has invalid size")\<close>\<close>
  | ZeroDivisionError

type_synonym u8 = "8 word"

definition mv :: nat where
  "mv = 4294967295"

definition u32 :: "nat \<Rightarrow> nat" where
  "u32 x = x mod 4294967296"

subsection \<open>Number of upstream cells\<close>

fun n_upstream_loop :: "nat list \<Rightarrow> nat list \<Rightarrow> u8 list \<Rightarrow> u8 list" where
  "n_upstream_loop idxs_ds [] n_up = n_up"
| "n_upstream_loop idxs_ds (i # rest) n_up =
     (let i_ds = idxs_ds ! i in
      if i \<noteq> i_ds then
        (if i_ds < length n_up
         then n_upstream_loop idxs_ds rest (n_up[i_ds := n_up ! i_ds + 1])
         else n_upstream_loop idxs_ds rest n_up)
      else n_upstream_loop idxs_ds rest n_up)"

text \<open>
  \<^verbatim>\<open>n_upstream\<close> has no raise. Its result is written as \<open>Inr\<close> so that it reads like
  the results of the functions that have one.
\<close>

definition n_upstream :: "nat list \<Rightarrow> error + u8 list" where
  "n_upstream idxs_ds =
     (let n = length idxs_ds in Inr (n_upstream_loop idxs_ds [0..<n] (replicate n 0)))"

subsection \<open>Upstream table\<close>

fun amax :: "u8 list \<Rightarrow> error + u8" where
  "amax [] = Inl EmptyReduction"
| "amax (x # xs) = Inr (fold max xs x)"

text \<open>
  \<open>reshape (nrow, ncol) flat\<close> reads a block of cells in row-major order as \<open>nrow\<close> rows
  of \<open>ncol\<close> cells.
\<close>

definition reshape :: "nat \<times> nat \<Rightarrow> 'a list \<Rightarrow> 'a list list" where
  "reshape shape flat =
     map (\<lambda>r. take (snd shape) (drop (r * snd shape) flat)) [0..<fst shape]"

text \<open>
  The second scan of \<^verbatim>\<open>_idxs_us\<close>, on the block \<open>flat\<close> of the table with rows of
  \<open>d\<close> cells. For a target \<open>i_ds\<close> that is not a cell, the counter read and both writes
  are outside the arrays.
\<close>

fun idxs_us_loop ::
  "nat list \<Rightarrow> nat list \<Rightarrow> nat \<Rightarrow> u8 list \<Rightarrow> nat list \<Rightarrow> nat list" where
  "idxs_us_loop idxs_ds [] d n_up flat = flat"
| "idxs_us_loop idxs_ds (i # rest) d n_up flat =
     (let i_ds = idxs_ds ! i in
      if i_ds = i then idxs_us_loop idxs_ds rest d n_up flat
      else if \<not> i_ds < length n_up then idxs_us_loop idxs_ds rest d n_up flat
      else
        (let ii = unat (n_up ! i_ds);
             p = i_ds * d + ii
         in idxs_us_loop idxs_ds rest d
              (n_up[i_ds := n_up ! i_ds + 1])
              (if p < length flat then flat[p := u32 i] else flat)))"

definition p_idxs_us :: "nat list \<Rightarrow> error + nat list list" where
  "p_idxs_us idxs_ds =
     (case n_upstream idxs_ds of
        Inl e \<Rightarrow> Inl e
      | Inr n_up \<Rightarrow>
          (case amax n_up of
             Inl e \<Rightarrow> Inl e
           | Inr m \<Rightarrow>
               (let d = unat m;
                    n = length idxs_ds
                in Inr (reshape (n, d)
                          (idxs_us_loop idxs_ds [0..<n] d (map (\<lambda>_. 0) n_up)
                             (replicate (n * d) mv))))))"

subsection \<open>Upstream lookup and network tree\<close>

definition upstream :: "nat list \<Rightarrow> nat list list \<Rightarrow> error + nat list" where
  "upstream idx0 tbl =
     (if list_all (\<lambda>i. i < length tbl) idx0
      then Inr (filter (\<lambda>x. x \<noteq> mv) (concat (map (\<lambda>i. tbl ! i) idx0)))
      else Inl IndexError)"

partial_function (option) network_tree_loop ::
  "nat list list \<Rightarrow> nat list list \<Rightarrow> nat list \<Rightarrow> (error + nat list list) option" where
  "network_tree_loop tbl tree idxs =
     (case upstream idxs tbl of
        Inl e \<Rightarrow> Some (Inl e)
      | Inr idxs_us0 \<Rightarrow>
          if idxs_us0 = [] then Some (Inr tree)
          else network_tree_loop tbl (tree @ [idxs_us0]) idxs_us0)"

definition network_tree :: "nat list \<Rightarrow> nat list list \<Rightarrow> (error + nat list list) option" where
  "network_tree idxs_pits tbl = network_tree_loop tbl [idxs_pits] idxs_pits"

subsection \<open>Pit and loop indices\<close>

definition pit_indices :: "nat list \<Rightarrow> nat list" where
  "pit_indices idxs_ds =
     map u32 (filter (\<lambda>idx0. idx0 = idxs_ds ! idx0) [0..<length idxs_ds])"

definition put_all :: "'a list \<Rightarrow> nat list \<Rightarrow> 'a list \<Rightarrow> 'a list" where
  "put_all arr idxs vals = fold (\<lambda>(i, v) a. a[i := v]) (zip idxs vals) arr"

partial_function (option) loop_indices_loop ::
  "nat list list \<Rightarrow> bool list \<Rightarrow> nat list \<Rightarrow> (error + bool list) option" where
  "loop_indices_loop tbl no_loop idxs_ds0 =
     (case upstream idxs_ds0 tbl of
        Inl e \<Rightarrow> Some (Inl e)
      | Inr idxs_us0 \<Rightarrow>
          if idxs_us0 = [] then Some (Inr no_loop)
          else if \<not> list_all (\<lambda>i. i < length no_loop) idxs_us0 then Some (Inl IndexError)
          else loop_indices_loop tbl
                 (put_all no_loop idxs_us0 (map (\<lambda>i. \<not> no_loop ! i) idxs_us0))
                 idxs_us0)"

definition loop_indices :: "nat list \<Rightarrow> nat list list \<Rightarrow> (error + nat list) option" where
  "loop_indices idxs_ds tbl =
     (let no_loop = map (\<lambda>x. x = mv) idxs_ds;
          idxs_ds0 = pit_indices idxs_ds;
          no_loop1 = (if idxs_ds0 \<noteq> []
                      then put_all no_loop idxs_ds0 (map (\<lambda>_. True) idxs_ds0)
                      else no_loop)
      in case loop_indices_loop tbl no_loop1 idxs_ds0 of
           None \<Rightarrow> None
         | Some (Inl e) \<Rightarrow> Some (Inl e)
         | Some (Inr fin) \<Rightarrow> Some (Inr (filter (\<lambda>i. \<not> fin ! i) [0..<length fin])))"


subsection \<open>Main upstream cell\<close>

text \<open>
  The weights (\<^verbatim>\<open>uparea_sparse\<close>, \<^verbatim>\<open>upa_min\<close>) are only compared with \<^verbatim>\<open>>=\<close>, so they
  are taken from any linear order. The scan of \<^verbatim>\<open>_main_upstream\<close> runs over one row of
  the upstream table and stops at the first missing value.
\<close>

fun main_upstream_scan :: "nat list \<Rightarrow> ('w::linorder) list \<Rightarrow> nat \<Rightarrow> 'w \<Rightarrow> error + nat" where
  "main_upstream_scan [] uparea_sparse idx_us0 upa0 = Inr idx_us0"
| "main_upstream_scan (idx_us # rest) uparea_sparse idx_us0 upa0 =
     (if idx_us = mv then Inr idx_us0
      else if \<not> idx_us < length uparea_sparse then Inl IndexError
      else if uparea_sparse ! idx_us \<ge> upa0
           then main_upstream_scan rest uparea_sparse idx_us (uparea_sparse ! idx_us)
           else main_upstream_scan rest uparea_sparse idx_us0 upa0)"

definition p_main_upstream ::
  "nat \<Rightarrow> nat list list \<Rightarrow> ('w::linorder) list \<Rightarrow> 'w \<Rightarrow> error + nat" where
  "p_main_upstream idx0 tbl uparea_sparse upa_min =
     (if idx0 < length tbl then main_upstream_scan (tbl ! idx0) uparea_sparse mv upa_min
      else Inl IndexError)"

fun main_upstream_loop ::
  "nat list \<Rightarrow> nat list list \<Rightarrow> ('w::linorder) list \<Rightarrow> 'w \<Rightarrow> error + nat list" where
  "main_upstream_loop [] tbl uparea_sparse upa_min = Inr []"
| "main_upstream_loop (i # rest) tbl uparea_sparse upa_min =
     (case p_main_upstream i tbl uparea_sparse upa_min of
        Inl e \<Rightarrow> Inl e
      | Inr r \<Rightarrow>
          (case main_upstream_loop rest tbl uparea_sparse upa_min of
             Inl e \<Rightarrow> Inl e
           | Inr rs \<Rightarrow> Inr (r # rs)))"

definition main_upstream ::
  "nat list \<Rightarrow> nat list list \<Rightarrow> ('w::linorder) list \<Rightarrow> 'w \<Rightarrow> error + nat list" where
  "main_upstream idxs tbl uparea_sparse upa_min =
     (if length tbl \<noteq> length uparea_sparse then Inl InvalidSize
      else main_upstream_loop idxs tbl uparea_sparse upa_min)"

subsection \<open>Downstream lookup and downstream path\<close>

definition downstream :: "nat \<Rightarrow> nat list \<Rightarrow> error + nat" where
  "downstream idx0 idxs_ds = (if idx0 < length idxs_ds then Inr (idxs_ds ! idx0) else Inl IndexError)"

partial_function (option) downstream_path_loop ::
  "nat list \<Rightarrow> nat \<Rightarrow> nat list \<Rightarrow> (error + nat list) option" where
  "downstream_path_loop idxs_ds idx0 idxs =
     (if \<not> idx0 < length idxs_ds then Some (Inl IndexError)
      else if idx0 = idxs_ds ! idx0 then Some (Inr idxs)
      else downstream_path_loop idxs_ds (idxs_ds ! idx0) (idxs @ [u32 (idxs_ds ! idx0)]))"

definition downstream_path :: "nat \<Rightarrow> nat list \<Rightarrow> (error + nat list) option" where
  "downstream_path idx0 idxs_ds =
     (case downstream_path_loop idxs_ds idx0 [idx0] of
        None \<Rightarrow> None
      | Some (Inl e) \<Rightarrow> Some (Inl e)
      | Some (Inr idxs) \<Rightarrow> Some (Inr (map u32 idxs)))"

subsection \<open>Downstream length\<close>

text \<open>
  The affine transform is read at its coefficients 0, 4 and 5 only. Floating-point numbers
  are idealised as reals, and \<^verbatim>\<open>math.hypot\<close> is the Euclidean norm. The functions
  \<^verbatim>\<open>gis_utils.degree_metres_y\<close> and \<^verbatim>\<open>gis_utils.degree_metres_x\<close> are not part of
  \<^verbatim>\<open>core.py\<close>; they are parameters of the model.
\<close>

record affine =
  coef0 :: real
  coef1 :: real
  coef2 :: real
  coef3 :: real
  coef4 :: real
  coef5 :: real

text \<open>
  Modelled from the spec: \<^verbatim>\<open>gis_utils.IDENTITY\<close>, the default of \<^verbatim>\<open>affine\<close>, is not
  in \<^verbatim>\<open>core.py\<close>. The specification lists the six coefficients as x-resolution,
  row-rotation, x-origin, column-rotation, y-resolution, y-origin, and asks the identity
  to give a unit cell size.
\<close>

definition IDENTITY :: affine where
  "IDENTITY = \<lparr>coef0 = 1, coef1 = 0, coef2 = 0, coef3 = 0, coef4 = 1, coef5 = 0\<rparr>"

definition hypot :: "real \<Rightarrow> real \<Rightarrow> real" where
  "hypot x y = sqrt (x * x + y * y)"

definition downstream_length ::
  "(real \<Rightarrow> real) \<Rightarrow> (real \<Rightarrow> real) \<Rightarrow>
   nat \<Rightarrow> nat list \<Rightarrow> int list \<Rightarrow> int \<Rightarrow> bool \<Rightarrow> affine \<Rightarrow> error + (nat \<times> real)" where
  "downstream_length degree_metres_y degree_metres_x idx0 idxs_ds idxs_dense ncol latlon aff =
     (let xres = coef0 aff; yres = coef4 aff; north = coef5 aff in
      case downstream idx0 idxs_ds of
        Inl e \<Rightarrow> Inl e
      | Inr idx1 \<Rightarrow>
          if \<not> (idx0 < length idxs_dense \<and> idx1 < length idxs_dense) then Inl IndexError
          else
            (let idx = idxs_dense ! idx0;
                 idx_ds = idxs_dense ! idx1
             in if ncol = 0 then Inl ZeroDivisionError
                else
                  (let r = idx_ds div ncol;
                       dr = (idx div ncol) - r;
                       dc = (idx mod ncol) - (idx_ds mod ncol);
                       lat = north + (real_of_int r + 0.5) * yres;
                       dy = (if latlon
                             then (if dr = 0 then 0 else degree_metres_y lat * yres)
                             else xres);
                       dx = (if latlon
                             then (if dc = 0 then 0 else degree_metres_x lat * xres)
                             else yres)
                   in Inr (idx1, hypot (dy * real_of_int dr) (dx * real_of_int dc)))))"

subsection \<open>Dense and sparse indexing\<close>

text \<open>
  An index array of signed integers addresses an array of length \<open>n\<close> as NumPy does:
  \<open>0 \<le> i < n\<close> is the position \<open>i\<close>, \<open>- n \<le> i < 0\<close> is the position \<open>i + n\<close>, and
  anything else raises \<^verbatim>\<open>IndexError\<close>. The assignment \<^verbatim>\<open>arr[idxs] = vals\<close> writes in
  the order of \<open>idxs\<close>, so the last write to a position stays.
\<close>

definition norm_index :: "nat \<Rightarrow> int \<Rightarrow> error + nat" where
  "norm_index n i =
     (if 0 \<le> i \<and> i < int n then Inr (nat i)
      else if - int n \<le> i \<and> i < 0 then Inr (nat (i + int n))
      else Inl IndexError)"

fun put_dense :: "'a list \<Rightarrow> (int \<times> 'a) list \<Rightarrow> error + 'a list" where
  "put_dense arr [] = Inr arr"
| "put_dense arr ((i, v) # rest) =
     (case norm_index (length arr) i of
        Inl e \<Rightarrow> Inl e
      | Inr k \<Rightarrow> put_dense (arr[k := v]) rest)"

definition p_sparse_idx :: "int list \<Rightarrow> int list \<Rightarrow> nat \<Rightarrow> error + nat list" where
  "p_sparse_idx idxs idxs_dense sz =
     (if list_ex (\<lambda>i. i < 0) idxs \<or> list_ex (\<lambda>i. i \<ge> int sz) idxs then Inl IndexOutOfBounds
      else
        (case put_dense (replicate sz mv)
                (zip idxs_dense (map u32 [0..<length idxs_dense])) of
           Inl e \<Rightarrow> Inl e
         | Inr idxs_sparse \<Rightarrow> Inr (map (\<lambda>i. idxs_sparse ! nat i) idxs)))"

definition p_densify :: "'a list \<Rightarrow> int list \<Rightarrow> nat \<times> nat \<Rightarrow> 'a \<Rightarrow> error + 'a list list" where
  "p_densify data idxs_dense shape nodata =
     (if length idxs_dense \<noteq> length data then Inl InvalidSize
      else
        (case put_dense (replicate (fst shape * snd shape) nodata) (zip idxs_dense data) of
           Inl e \<Rightarrow> Inl e
         | Inr data_out \<Rightarrow> Inr (reshape shape data_out)))"

section \<open>Notions used to state the properties\<close>

text \<open>
  The upstream cells of a cell \<open>j\<close> are the cells other than \<open>j\<close> whose downstream
  target is \<open>j\<close>, in ascending order; their number is the in-degree of \<open>j\<close>, and
  \<open>width\<close> is the largest in-degree. A row of the upstream table of width \<open>d\<close> that
  holds the entries \<open>xs\<close> is \<open>row_of d xs\<close>: the entries first, then missing values.
\<close>

definition ups :: "nat list \<Rightarrow> nat \<Rightarrow> nat list" where
  "ups ds j = filter (\<lambda>i. ds ! i = j \<and> i \<noteq> j) [0..<length ds]"

definition indeg :: "nat list \<Rightarrow> nat \<Rightarrow> nat" where
  "indeg ds j = length (ups ds j)"

definition width :: "nat list \<Rightarrow> nat" where
  "width ds = fold max (map (indeg ds) [0..<length ds]) 0"

definition row_of :: "nat \<Rightarrow> nat list \<Rightarrow> nat list" where
  "row_of d xs = xs @ replicate (d - length xs) mv"

text \<open>
  A downstream array is well formed for the upstream table builder when it is not empty,
  every target is a cell, no cell index is the missing value, and every in-degree fits the
  8-bit counter.
\<close>

definition in_range :: "nat list \<Rightarrow> bool" where
  "in_range ds = list_all (\<lambda>x. x < length ds) ds"

definition valid_ds :: "nat list \<Rightarrow> bool" where
  "valid_ds ds =
     (ds \<noteq> [] \<and> length ds \<le> mv \<and> in_range ds \<and>
      list_all (\<lambda>j. indeg ds j < 256) [0..<length ds])"

text \<open>
  \<open>hop ds k i\<close> is the cell reached from \<open>i\<close> by \<open>k\<close> single downstream lookups.
\<close>

definition hop :: "nat list \<Rightarrow> nat \<Rightarrow> nat \<Rightarrow> nat" where
  "hop ds k i = ((\<lambda>x. ds ! x) ^^ k) i"

text \<open>
  A row is left-packed when nothing but missing values follows its first missing value.
\<close>

definition left_packed :: "nat list \<Rightarrow> bool" where
  "left_packed row = list_all (\<lambda>x. x = mv) (dropWhile (\<lambda>x. x \<noteq> mv) row)"

text \<open>
  The list of the dense indices of the valid cells is well formed for a raster of \<open>sz\<close>
  cells when it names every cell once, every entry is a position of the raster, and the
  number of valid cells leaves the missing value free.
\<close>

definition valid_dense :: "int list \<Rightarrow> nat \<Rightarrow> bool" where
  "valid_dense idxs_dense sz =
     (distinct idxs_dense \<and> list_all (\<lambda>d. 0 \<le> d \<and> d < int sz) idxs_dense \<and>
      length idxs_dense \<le> mv)"

text \<open>
  The composition that turns sparse values into a dense raster and then reads the cells of
  that raster as dense indices to be translated to sparse indices.
\<close>

definition dense_then_sparse ::
  "int list \<Rightarrow> int list \<Rightarrow> nat \<times> nat \<Rightarrow> int \<Rightarrow> nat \<Rightarrow> error + nat list" where
  "dense_then_sparse v idxs_dense shape nodata sz =
     (case p_densify v idxs_dense shape nodata of
        Inl e \<Rightarrow> Inl e
      | Inr grid \<Rightarrow> p_sparse_idx (concat grid) idxs_dense sz)"

text \<open>
  \<open>bfs_level tbl pits k\<close> is the \<open>k\<close>-th frontier of the breadth-first expansion from the
  pits along the upstream table, each frontier being \<^verbatim>\<open>upstream\<close> of the one before.
\<close>

fun bfs_level :: "nat list list \<Rightarrow> nat list \<Rightarrow> nat \<Rightarrow> nat list" where
  "bfs_level tbl pits 0 = pits"
| "bfs_level tbl pits (Suc k) =
     (case upstream (bfs_level tbl pits k) tbl of Inl e \<Rightarrow> [] | Inr u \<Rightarrow> u)"

text \<open>
  An upstream table with \<open>n\<close> rows lists a forest over the pits when its entries other
  than the missing value are cells, none of them a pit, and no cell is listed twice in the
  whole table.
\<close>

definition forest_table :: "nat \<Rightarrow> nat list \<Rightarrow> nat list list \<Rightarrow> bool" where
  "forest_table n pits tbl =
     (length tbl = n \<and> distinct pits \<and> list_all (\<lambda>p. p < n) pits \<and>
      distinct (filter (\<lambda>x. x \<noteq> mv) (concat tbl)) \<and>
      list_all (\<lambda>x. x = mv \<or> (x < n \<and> x \<notin> set pits)) (concat tbl))"

section \<open>The counter of upstream cells and the upstream table\<close>

lemma n_upstream_loop_counts:
  "n_upstream_loop ds cells n_up =
     map (\<lambda>j. n_up ! j + of_nat (length (filter (\<lambda>i. ds ! i = j \<and> i \<noteq> j) cells)))
       [0..<length n_up]"
proof (induction cells arbitrary: n_up)
  case Nil
  then show ?case by (simp add: map_nth)
next
  case (Cons i rest)
  show ?case
  proof (cases "i \<noteq> ds ! i \<and> ds ! i < length n_up")
    case True
    let ?n' = "n_up[ds ! i := n_up ! (ds ! i) + 1]"
    have "n_upstream_loop ds (i # rest) n_up = n_upstream_loop ds rest ?n'"
      using True by (simp add: Let_def)
    also have "\<dots> = map (\<lambda>j. ?n' ! j + of_nat (length (filter (\<lambda>i. ds ! i = j \<and> i \<noteq> j) rest)))
                 [0..<length n_up]"
      using Cons.IH [of ?n'] by simp
    also have "\<dots> = map (\<lambda>j. n_up ! j + of_nat (length (filter (\<lambda>k. ds ! k = j \<and> k \<noteq> j) (i # rest))))
                 [0..<length n_up]"
      using True by (auto simp: nth_list_update)
    finally show ?thesis .
  next
    case False
    then have "n_upstream_loop ds (i # rest) n_up = n_upstream_loop ds rest n_up"
      by (auto simp: Let_def)
    also have "\<dots> = map (\<lambda>j. n_up ! j + of_nat (length (filter (\<lambda>i. ds ! i = j \<and> i \<noteq> j) rest)))
                 [0..<length n_up]"
      by (rule Cons.IH)
    also have "\<dots> = map (\<lambda>j. n_up ! j + of_nat (length (filter (\<lambda>k. ds ! k = j \<and> k \<noteq> j) (i # rest))))
                 [0..<length n_up]"
      using False by auto
    finally show ?thesis .
  qed
qed

lemma n_upstream_counts_eq:
  "n_upstream ds = Inr (map (\<lambda>j. of_nat (indeg ds j)) [0..<length ds])"
  by (simp add: n_upstream_def n_upstream_loop_counts indeg_def ups_def Let_def cong: map_cong)

lemma length_row_of: "length xs \<le> d \<Longrightarrow> length (row_of d xs) = d"
  by (simp add: row_of_def)

lemma row_of_nth_snoc:
  assumes "length xs < d" and "c < d"
  shows "row_of d (xs @ [i]) ! c = (if c = length xs then i else row_of d xs ! c)"
proof -
  from assms(1) obtain k where k: "d - length xs = Suc k"
    by (metis Suc_diff_Suc)
  then have k': "d - length (xs @ [i]) = k" by simp
  show ?thesis
    unfolding row_of_def k k' using assms(2) k
    by (auto simp: nth_append nth_Cons split: nat.splits)
qed

lemma cell_position:
  assumes "c < d" and "l < d" and "j * d + c = j0 * d + (l::nat)"
  shows "j = j0 \<and> c = l"
proof -
  have "(j * d + c) div d = j" "(j * d + c) mod d = c" using assms(1) by simp_all
  moreover have "(j0 * d + l) div d = j0" "(j0 * d + l) mod d = l" using assms(2) by simp_all
  ultimately show ?thesis using assms(3) by metis
qed

lemma cell_in_block:
  assumes "j < n" and "c < (d::nat)"
  shows "j * d + c < n * d"
proof -
  from assms(1) have "Suc j \<le> n" by simp
  then have "Suc j * d \<le> n * d" by (rule mult_le_mono1)
  with assms(2) show ?thesis by simp
qed

lemma length_idxs_us_loop: "length (idxs_us_loop ds cells d n_up flat) = length flat"
  by (induction cells arbitrary: n_up flat) (simp_all add: Let_def)

lemma idxs_us_loop_rows:
  assumes "length n_up = n" and "length flat = n * d"
    and "\<forall>i\<in>set cells. ds ! i < n \<and> i < 4294967296"
    and "\<forall>j<n. n_up ! j = of_nat (length (pre j))"
    and "\<forall>j<n. \<forall>c<d. flat ! (j * d + c) = row_of d (pre j) ! c"
    and "\<forall>j<n. length (pre j) + length (filter (\<lambda>i. ds ! i = j \<and> i \<noteq> j) cells) \<le> d"
    and "d < 256"
  shows "\<forall>j<n. \<forall>c<d. idxs_us_loop ds cells d n_up flat ! (j * d + c) =
           row_of d (pre j @ filter (\<lambda>i. ds ! i = j \<and> i \<noteq> j) cells) ! c"
  using assms
proof (induction cells arbitrary: n_up flat pre)
  case Nil
  then show ?case by simp
next
  case (Cons i rest)
  show ?case
  proof (cases "ds ! i = i")
    case True
    then have same: "\<And>j. filter (\<lambda>k. ds ! k = j \<and> k \<noteq> j) (i # rest) =
                        filter (\<lambda>k. ds ! k = j \<and> k \<noteq> j) rest"
      by auto
    have "\<forall>j<n. \<forall>c<d. idxs_us_loop ds rest d n_up flat ! (j * d + c) =
           row_of d (pre j @ filter (\<lambda>i. ds ! i = j \<and> i \<noteq> j) rest) ! c"
    proof (intro Cons.IH)
      show "\<forall>j<n. length (pre j) + length (filter (\<lambda>i. ds ! i = j \<and> i \<noteq> j) rest) \<le> d"
        using Cons.prems(6) unfolding same .
    qed (use Cons.prems in simp_all)
    with True show ?thesis by (simp add: same)
  next
    case False
    define j0 where "j0 = ds ! i"
    define l where "l = length (pre j0)"
    let ?pre = "pre(j0 := pre j0 @ [i])"
    let ?n' = "n_up[j0 := n_up ! j0 + 1]"
    let ?f' = "flat[j0 * d + l := i]"
    have j0: "j0 < n" and i32: "i < 4294967296"
      using Cons.prems(3) by (simp_all add: j0_def)
    have "l + length (filter (\<lambda>k. ds ! k = j0 \<and> k \<noteq> j0) (i # rest)) \<le> d"
      using Cons.prems(6) j0 by (simp add: l_def)
    moreover have "ds ! i = j0 \<and> i \<noteq> j0" using False by (simp add: j0_def)
    ultimately have l: "l < d"
      and cap0: "Suc l + length (filter (\<lambda>k. ds ! k = j0 \<and> k \<noteq> j0) rest) \<le> d"
      by simp_all
    have l256: "l < 256" using l Cons.prems(7) by simp
    have nj0: "n_up ! j0 = of_nat l" using Cons.prems(4) j0 by (simp add: l_def)
    have ii: "unat (n_up ! j0) = l"
      using l256 by (simp add: nj0 unat_of_nat take_bit_nat_eq_self)
    have inside: "j0 * d + l < length flat"
      using cell_in_block [OF j0 l] Cons.prems(2) by simp
    have u: "u32 i = i" using i32 by (simp add: u32_def)
    have step: "idxs_us_loop ds (i # rest) d n_up flat = idxs_us_loop ds rest d ?n' ?f'"
      using False j0 ii inside Cons.prems(1) u by (simp add: j0_def [symmetric] Let_def)
    have "\<forall>j<n. \<forall>c<d. idxs_us_loop ds rest d ?n' ?f' ! (j * d + c) =
           row_of d (?pre j @ filter (\<lambda>i. ds ! i = j \<and> i \<noteq> j) rest) ! c"
    proof (intro Cons.IH)
      show "length ?n' = n" using Cons.prems(1) by simp
      show "length ?f' = n * d" using Cons.prems(2) by simp
      show "\<forall>i\<in>set rest. ds ! i < n \<and> i < 4294967296" using Cons.prems(3) by simp
      show "\<forall>j<n. ?n' ! j = of_nat (length (?pre j))"
        using Cons.prems(1,4) nj0 by (auto simp: nth_list_update l_def)
      show "\<forall>j<n. \<forall>c<d. ?f' ! (j * d + c) = row_of d (?pre j) ! c"
      proof (intro allI impI)
        fix j c assume j: "j < n" and c: "c < d"
        have old: "flat ! (j * d + c) = row_of d (pre j) ! c" using Cons.prems(5) j c by blast
        have pos: "j * d + c < length flat"
          using cell_in_block [OF j c] Cons.prems(2) by simp
        show "?f' ! (j * d + c) = row_of d (?pre j) ! c"
        proof (cases "j * d + c = j0 * d + l")
          case True
          with cell_position [OF c l] have "j = j0" "c = l" by blast+
          then show ?thesis
            using pos l row_of_nth_snoc [of "pre j0" d l i] by (simp add: l_def)
        next
          case ne: False
          then have "?f' ! (j * d + c) = flat ! (j * d + c)" by simp
          also have "\<dots> = row_of d (pre j) ! c" by (rule old)
          also have "\<dots> = row_of d (?pre j) ! c"
          proof (cases "j = j0")
            case True
            with ne have "c \<noteq> l" by auto
            then show ?thesis
              using True c l row_of_nth_snoc [of "pre j0" d c i] by (simp add: l_def)
          next
            case False
            then show ?thesis by simp
          qed
          finally show ?thesis .
        qed
      qed
      show "\<forall>j<n. length (?pre j) + length (filter (\<lambda>i. ds ! i = j \<and> i \<noteq> j) rest) \<le> d"
      proof (intro allI impI)
        fix j assume "j < n"
        with Cons.prems(6)
        have "length (pre j) + length (filter (\<lambda>k. ds ! k = j \<and> k \<noteq> j) (i # rest)) \<le> d"
          by blast
        then show "length (?pre j) + length (filter (\<lambda>i. ds ! i = j \<and> i \<noteq> j) rest) \<le> d"
          using cap0 by (auto simp: l_def split: if_splits)
      qed
      show "d < 256" by (rule Cons.prems(7))
    qed
    moreover have "?pre j @ filter (\<lambda>i. ds ! i = j \<and> i \<noteq> j) rest =
                   pre j @ filter (\<lambda>k. ds ! k = j \<and> k \<noteq> j) (i # rest)" for j
      using False by (auto simp: j0_def)
    ultimately show ?thesis unfolding step by simp
  qed
qed

lemma concat_reshape_take:
  "concat (reshape (nrow, ncol) flat) = take (nrow * ncol) flat"
proof (induction nrow)
  case 0
  then show ?case by (simp add: reshape_def)
next
  case (Suc n)
  have "concat (reshape (Suc n, ncol) flat) =
        concat (reshape (n, ncol) flat) @ take ncol (drop (n * ncol) flat)"
    by (simp add: reshape_def)
  also have "\<dots> = take (n * ncol) flat @ take ncol (drop (n * ncol) flat)"
    by (simp only: Suc.IH)
  also have "\<dots> = take (n * ncol + ncol) flat"
    by (rule take_add [symmetric])
  finally show ?case by (simp add: add.commute)
qed

lemma reshape_rows:
  assumes "length flat = nrow * ncol"
  shows "length (reshape (nrow, ncol) flat) = nrow \<and>
         (\<forall>row\<in>set (reshape (nrow, ncol) flat). length row = ncol)"
proof -
  have "length (take ncol (drop (r * ncol) flat)) = ncol" if "r < nrow" for r
  proof -
    from that have "Suc r \<le> nrow" by simp
    then have "Suc r * ncol \<le> nrow * ncol" by (rule mult_le_mono1)
    then have "ncol \<le> nrow * ncol - r * ncol" by simp
    then show ?thesis using assms by simp
  qed
  then show ?thesis by (auto simp: reshape_def)
qed

lemma reshape_nth:
  assumes "length flat = n * d" and "j < n"
  shows "length (reshape (n, d) flat ! j) = d \<and>
         (\<forall>c<d. reshape (n, d) flat ! j ! c = flat ! (j * d + c))"
proof -
  have row: "reshape (n, d) flat ! j = take d (drop (j * d) flat)"
    using assms(2) by (simp add: reshape_def)
  have "reshape (n, d) flat ! j \<in> set (reshape (n, d) flat)"
    using assms(2) reshape_rows [OF assms(1)] by simp
  then have len: "length (reshape (n, d) flat ! j) = d"
    using reshape_rows [OF assms(1)] by blast
  have "reshape (n, d) flat ! j ! c = flat ! (j * d + c)" if c: "c < d" for c
  proof -
    have "j * d + c < length flat" using cell_in_block [OF assms(2) c] assms(1) by simp
    then show ?thesis unfolding row using c by simp
  qed
  with len show ?thesis by blast
qed

lemma in_range_nth: "in_range ds \<Longrightarrow> i < length ds \<Longrightarrow> ds ! i < length ds"
  by (simp add: in_range_def list_all_length)

lemma valid_ds_indeg: "valid_ds ds \<Longrightarrow> j < length ds \<Longrightarrow> indeg ds j < 256"
  by (simp add: valid_ds_def list_all_length)

lemma width_Max: "ds \<noteq> [] \<Longrightarrow> width ds = Max (indeg ds ` {..<length ds})"
proof -
  assume "ds \<noteq> []"
  then obtain x xs where e: "map (indeg ds) [0..<length ds] = x # xs"
    by (cases "map (indeg ds) [0..<length ds]") auto
  then have "width ds = fold max xs x" by (simp add: width_def)
  also have "\<dots> = Max (set (x # xs))" by (rule Max.set_eq_fold [symmetric])
  also have "set (x # xs) = indeg ds ` {..<length ds}"
    unfolding e [symmetric] by (auto simp: lessThan_def)
  finally show ?thesis .
qed

lemma indeg_le_width: "j < length ds \<Longrightarrow> indeg ds j \<le> width ds"
proof -
  assume j: "j < length ds"
  then have "ds \<noteq> []" by auto
  with j show ?thesis by (simp add: width_Max)
qed

lemma width_less: "valid_ds ds \<Longrightarrow> width ds < 256"
proof -
  assume v: "valid_ds ds"
  then have ne: "ds \<noteq> []" by (simp add: valid_ds_def)
  then have "0 \<in> {..<length ds}" by simp
  then have "indeg ds ` {..<length ds} \<noteq> {}" by blast
  then show ?thesis using v by (simp add: width_Max ne valid_ds_indeg)
qed

lemma amax_Max: "xs \<noteq> [] \<Longrightarrow> amax xs = Inr (Max (set xs))"
proof -
  assume "xs \<noteq> []"
  then obtain y ys where e: "xs = y # ys" by (cases xs) auto
  have "fold max ys y = Max (set (y # ys))" by (rule Max.set_eq_fold [symmetric])
  then show ?thesis unfolding e by (simp only: amax.simps)
qed

lemma unat_Max_counts:
  assumes ne: "ds \<noteq> []" and small: "\<forall>j<length ds. indeg ds j < 256"
  shows "unat (Max (set (map (\<lambda>j. of_nat (indeg ds j) :: u8) [0..<length ds]))) = width ds"
proof -
  let ?A = "(\<lambda>j. of_nat (indeg ds j) :: u8) ` {..<length ds}"
  have A: "set (map (\<lambda>j. of_nat (indeg ds j) :: u8) [0..<length ds]) = ?A"
    by (auto simp: lessThan_def)
  have "0 \<in> {..<length ds}" using ne by simp
  then have nonempty: "?A \<noteq> {}" by blast
  have fin: "finite ?A" by simp
  have "mono (unat :: u8 \<Rightarrow> nat)" by (simp add: mono_def word_le_nat_alt)
  then have "unat (Max ?A) = Max (unat ` ?A)"
    using fin nonempty by (rule mono_Max_commute)
  also have "unat ` ?A = indeg ds ` {..<length ds}"
  proof -
    have "\<And>j. j < length ds \<Longrightarrow> unat (of_nat (indeg ds j) :: u8) = indeg ds j"
      using small by (simp add: unat_of_nat take_bit_nat_eq_self)
    then show ?thesis by (force simp: image_image)
  qed
  finally have "unat (Max ?A) = Max (indeg ds ` {..<length ds})" .
  then show ?thesis by (simp only: A width_Max [OF ne])
qed

lemma p_idxs_us_eq:
  assumes "valid_ds ds"
  shows "p_idxs_us ds = Inr (map (\<lambda>j. row_of (width ds) (ups ds j)) [0..<length ds])"
proof -
  let ?n = "length ds"
  let ?d = "width ds"
  let ?cnts = "map (\<lambda>j. of_nat (indeg ds j) :: u8) [0..<?n]"
  let ?flat = "idxs_us_loop ds [0..<?n] ?d (replicate ?n 0) (replicate (?n * ?d) mv)"
  from assms have ne: "ds \<noteq> []" and rng: "in_range ds" and small: "?n \<le> mv"
    by (simp_all add: valid_ds_def)
  have cnts: "n_upstream ds = Inr ?cnts" by (rule n_upstream_counts_eq)
  have "?cnts \<noteq> []" using ne by simp
  then have mx: "amax ?cnts = Inr (Max (set ?cnts))" by (rule amax_Max)
  have d: "unat (Max (set ?cnts)) = ?d"
    using ne valid_ds_indeg [OF assms] by (intro unat_Max_counts) simp_all
  have zero: "map (\<lambda>_. 0 :: u8) ?cnts = replicate ?n 0"
    by (simp add: map_replicate_const)
  have len: "length ?flat = ?n * ?d" by (simp add: length_idxs_us_loop)
  have cells: "\<forall>j<?n. \<forall>c<?d. ?flat ! (j * ?d + c) =
           row_of ?d ([] @ filter (\<lambda>i. ds ! i = j \<and> i \<noteq> j) [0..<?n]) ! c"
  proof (rule idxs_us_loop_rows [where pre = "\<lambda>_. []" and n = ?n])
    show "\<forall>i\<in>set [0..<?n]. ds ! i < ?n \<and> i < 4294967296"
      using rng small by (auto simp: in_range_nth mv_def)
    show "\<forall>j<?n. length ([]::nat list) + length (filter (\<lambda>i. ds ! i = j \<and> i \<noteq> j) [0..<?n]) \<le> ?d"
      using indeg_le_width [of _ ds] by (simp add: indeg_def ups_def)
    show "?d < 256" by (rule width_less [OF assms])
    show "\<forall>j<?n. \<forall>c<?d. replicate (?n * ?d) mv ! (j * ?d + c) = row_of ?d [] ! c"
      using cell_in_block by (simp add: row_of_def)
  qed simp_all
  have lrs: "length (reshape (?n, ?d) ?flat) = ?n"
    using reshape_rows [OF len] by blast
  have "reshape (?n, ?d) ?flat = map (\<lambda>j. row_of ?d (ups ds j)) [0..<?n]"
  proof (rule nth_equalityI)
    show "length (reshape (?n, ?d) ?flat) = length (map (\<lambda>j. row_of ?d (ups ds j)) [0..<?n])"
      unfolding lrs by simp
  next
    fix j assume "j < length (reshape (?n, ?d) ?flat)"
    then have j: "j < ?n" unfolding lrs .
    have lj: "length (reshape (?n, ?d) ?flat ! j) = ?d"
      using reshape_nth [OF len j] by blast
    have lr: "length (row_of ?d (ups ds j)) = ?d"
      using indeg_le_width [OF j] by (intro length_row_of) (simp add: indeg_def)
    have "reshape (?n, ?d) ?flat ! j = row_of ?d (ups ds j)"
    proof (rule nth_equalityI)
      show "length (reshape (?n, ?d) ?flat ! j) = length (row_of ?d (ups ds j))"
        unfolding lj lr ..
    next
      fix c assume "c < length (reshape (?n, ?d) ?flat ! j)"
      then have c: "c < ?d" unfolding lj .
      have "reshape (?n, ?d) ?flat ! j ! c = ?flat ! (j * ?d + c)"
        using reshape_nth [OF len j] c by blast
      also have "\<dots> = row_of ?d ([] @ filter (\<lambda>i. ds ! i = j \<and> i \<noteq> j) [0..<?n]) ! c"
        using cells j c by blast
      finally show "reshape (?n, ?d) ?flat ! j ! c = row_of ?d (ups ds j) ! c"
        by (simp only: append_Nil ups_def)
    qed
    moreover have "map (\<lambda>j. row_of ?d (ups ds j)) [0..<?n] ! j = row_of ?d (ups ds j)"
      using j by simp
    ultimately show "reshape (?n, ?d) ?flat ! j = map (\<lambda>j. row_of ?d (ups ds j)) [0..<?n] ! j"
      by (rule trans [OF _ sym])
  qed
  moreover have "p_idxs_us ds =
        Inr (reshape (?n, unat (Max (set ?cnts)))
               (idxs_us_loop ds [0..<?n] (unat (Max (set ?cnts))) (map (\<lambda>_. 0) ?cnts)
                  (replicate (?n * unat (Max (set ?cnts))) mv)))"
    by (simp only: p_idxs_us_def cnts mx sum.case Let_def)
  ultimately show ?thesis by (simp only: zero d)
qed

lemma u32_id: "x < 4294967296 \<Longrightarrow> u32 x = x"
  by (simp add: u32_def)

lemma distinct_filter_update:
  assumes "distinct (filter P xs)" and "i \<notin> set xs"
  shows "distinct (filter P (xs[p := i]))"
proof (cases "p < length xs")
  case False
  then have "xs[p := i] = xs" by (simp add: list_update_beyond)
  with assms(1) show ?thesis by simp
next
  case True
  let ?A = "filter P (take p xs)" and ?B = "filter P (drop (Suc p) xs)"
  have xs: "xs = take p xs @ xs ! p # drop (Suc p) xs"
    using True by (rule id_take_nth_drop)
  have "distinct (filter P (take p xs @ xs ! p # drop (Suc p) xs))"
    using assms(1) xs by simp
  then have dA: "distinct ?A" and dB: "distinct ?B" and AB: "set ?A \<inter> set ?B = {}"
    by (auto split: if_splits)
  have iA: "i \<notin> set ?A" using assms(2) by (auto dest: in_set_takeD)
  have iB: "i \<notin> set ?B" using assms(2) by (auto dest: in_set_dropD)
  have "xs[p := i] = take p xs @ i # drop (Suc p) xs"
    using True by (rule upd_conv_take_nth_drop)
  then have "filter P (xs[p := i]) = ?A @ filter P [i] @ ?B" by simp
  with dA dB AB iA iB show ?thesis by auto
qed

lemma idxs_us_loop_entries:
  assumes "distinct cells" and "\<forall>i\<in>set cells. i < 4294967296"
    and "\<forall>i\<in>set cells. i \<notin> set flat"
    and "distinct (filter (\<lambda>x. x \<noteq> mv) flat)"
  shows "distinct (filter (\<lambda>x. x \<noteq> mv) (idxs_us_loop ds cells d n_up flat)) \<and>
         set (idxs_us_loop ds cells d n_up flat) \<subseteq> set flat \<union> {i \<in> set cells. ds ! i \<noteq> i}"
  using assms
proof (induction cells arbitrary: n_up flat)
  case Nil
  then show ?case by simp
next
  case (Cons i rest)
  from Cons.prems have dr: "distinct rest" and ir: "i \<notin> set rest"
    and r32: "\<forall>k\<in>set rest. k < 4294967296" and i32: "i < 4294967296"
    and rf: "\<forall>k\<in>set rest. k \<notin> set flat" and ifl: "i \<notin> set flat"
    by simp_all
  show ?case
  proof (cases "ds ! i \<noteq> i \<and> ds ! i < length n_up")
    case False
    then have step: "idxs_us_loop ds (i # rest) d n_up flat = idxs_us_loop ds rest d n_up flat"
      by (auto simp: Let_def)
    from Cons.IH [OF dr r32 rf Cons.prems(4), of n_up] show ?thesis
      unfolding step by auto
  next
    case True
    let ?p = "ds ! i * d + unat (n_up ! (ds ! i))"
    let ?n' = "n_up[ds ! i := n_up ! (ds ! i) + 1]"
    let ?f' = "if ?p < length flat then flat[?p := i] else flat"
    have u: "u32 i = i" using i32 by (rule u32_id)
    have step: "idxs_us_loop ds (i # rest) d n_up flat = idxs_us_loop ds rest d ?n' ?f'"
      using True u by (simp add: Let_def)
    have sub: "set ?f' \<subseteq> insert i (set flat)"
      using set_update_subset_insert [of flat ?p i] by auto
    have rf': "\<forall>k\<in>set rest. k \<notin> set ?f'"
    proof
      fix k assume k: "k \<in> set rest"
      then have "k \<noteq> i" using ir by auto
      moreover have "k \<notin> set flat" using rf k by blast
      ultimately show "k \<notin> set ?f'" using sub by blast
    qed
    have df': "distinct (filter (\<lambda>x. x \<noteq> mv) ?f')"
      using distinct_filter_update [OF Cons.prems(4) ifl] Cons.prems(4) by simp
    from Cons.IH [OF dr r32 rf' df', of ?n'] sub True show ?thesis
      unfolding step by auto
  qed
qed

lemma pit_indices_eq:
  "length ds \<le> mv \<Longrightarrow> pit_indices ds = filter (\<lambda>i. ds ! i = i) [0..<length ds]"
proof -
  assume s: "length ds \<le> mv"
  let ?p = "filter (\<lambda>i. i = ds ! i) [0..<length ds]"
  have "map u32 ?p = map (\<lambda>x. x) ?p"
  proof (rule map_cong [OF refl])
    fix x assume "x \<in> set ?p"
    then have "x < length ds" by simp
    with s show "u32 x = x" by (intro u32_id) (simp add: mv_def)
  qed
  then have "pit_indices ds = ?p" by (simp add: pit_indices_def)
  also have "?p = filter (\<lambda>i. ds ! i = i) [0..<length ds]"
    by (rule filter_cong) auto
  finally show ?thesis .
qed

lemma p_idxs_us_forest:
  assumes ne: "ds \<noteq> []" and small: "length ds \<le> mv"
  shows "\<exists>tbl. p_idxs_us ds = Inr tbl \<and> forest_table (length ds) (pit_indices ds) tbl"
proof -
  let ?n = "length ds"
  obtain cnts where c: "n_upstream ds = Inr cnts" and lc: "length cnts = ?n"
    using n_upstream_counts_eq [of ds] by simp
  from ne lc obtain m where m: "amax cnts = Inr m" by (cases cnts) auto
  let ?d = "unat m"
  let ?init = "replicate (?n * ?d) mv"
  let ?flat = "idxs_us_loop ds [0..<?n] ?d (map (\<lambda>_. 0) cnts) ?init"
  let ?tbl = "reshape (?n, ?d) ?flat"
  have res: "p_idxs_us ds = Inr ?tbl"
    by (simp only: p_idxs_us_def c m sum.case Let_def)
  have len: "length ?flat = ?n * ?d" by (simp add: length_idxs_us_loop)
  have cat: "concat ?tbl = ?flat" using len by (simp only: concat_reshape_take) simp
  have "\<forall>i\<in>set [0..<?n]. i \<notin> set ?init" using small by auto
  moreover have "\<forall>i\<in>set [0..<?n]. i < 4294967296" using small by (simp add: mv_def)
  moreover have "distinct (filter (\<lambda>x. x \<noteq> mv) ?init)" by simp
  ultimately have ent: "distinct (filter (\<lambda>x. x \<noteq> mv) ?flat) \<and>
         set ?flat \<subseteq> set ?init \<union> {i \<in> set [0..<?n]. ds ! i \<noteq> i}"
    by (intro idxs_us_loop_entries) simp_all
  have pits: "pit_indices ds = filter (\<lambda>i. ds ! i = i) [0..<?n]"
    by (rule pit_indices_eq [OF small])
  have "x = mv \<or> (x < ?n \<and> x \<notin> set (pit_indices ds))" if "x \<in> set ?flat" for x
  proof -
    from that ent have "x \<in> set ?init \<or> (x < ?n \<and> ds ! x \<noteq> x)" by auto
    then show ?thesis unfolding pits by auto
  qed
  then have "list_all (\<lambda>x. x = mv \<or> (x < ?n \<and> x \<notin> set (pit_indices ds))) (concat ?tbl)"
    unfolding cat by (simp add: list_all_iff)
  moreover have "distinct (filter (\<lambda>x. x \<noteq> mv) (concat ?tbl))" unfolding cat using ent by blast
  moreover have "length ?tbl = ?n" using reshape_rows [OF len] by blast
  moreover have "distinct (pit_indices ds)" unfolding pits by simp
  moreover have "list_all (\<lambda>p. p < ?n) (pit_indices ds)" unfolding pits by (simp add: list_all_iff)
  ultimately have "forest_table ?n (pit_indices ds) ?tbl" unfolding forest_table_def by blast
  with res show ?thesis by blast
qed

lemma mv_notin_ups: "length ds \<le> mv \<Longrightarrow> mv \<notin> set (ups ds j)"
  by (auto simp: ups_def)

text \<open>
  C2, as the source behaves: for a well-formed downstream array (not empty, every target a
  cell, fewer cells than the missing value, every in-degree below 256) the builder returns
  a table with one row per cell;
  the row of the downstream target of every cell that is not a pit contains that cell; the
  row of \<open>j\<close> is the upstream cells of \<open>j\<close> (none of them the missing value) followed by
  missing values only, and it holds \<open>indeg ds j \<le> d\<close> entries in a row of length \<open>d\<close>,
  where \<open>d\<close> is the largest in-degree.
\<close>

theorem upstream_table_round_trip:
  assumes "valid_ds ds"
  shows "\<exists>tbl. p_idxs_us ds = Inr tbl \<and> length tbl = length ds \<and>
           (\<forall>i<length ds. ds ! i \<noteq> i \<longrightarrow> i \<in> set (tbl ! (ds ! i))) \<and>
           (\<forall>j<length ds.
               tbl ! j = ups ds j @ replicate (width ds - indeg ds j) mv \<and>
               mv \<notin> set (ups ds j) \<and>
               indeg ds j \<le> width ds \<and>
               length (tbl ! j) = width ds) \<and>
           width ds = Max (indeg ds ` {..<length ds})"
proof -
  let ?tbl = "map (\<lambda>j. row_of (width ds) (ups ds j)) [0..<length ds]"
  from assms have ne: "ds \<noteq> []" and rng: "in_range ds" and small: "length ds \<le> mv"
    by (simp_all add: valid_ds_def)
  have "p_idxs_us ds = Inr ?tbl" by (rule p_idxs_us_eq [OF assms])
  moreover have "length ?tbl = length ds" by simp
  moreover have "\<forall>i<length ds. ds ! i \<noteq> i \<longrightarrow> i \<in> set (?tbl ! (ds ! i))"
    using rng by (auto simp: in_range_nth row_of_def ups_def)
  moreover have "\<forall>j<length ds.
               ?tbl ! j = ups ds j @ replicate (width ds - indeg ds j) mv \<and>
               mv \<notin> set (ups ds j) \<and>
               indeg ds j \<le> width ds \<and>
               length (?tbl ! j) = width ds"
    using small indeg_le_width [of _ ds]
    by (simp add: row_of_def mv_notin_ups indeg_def)
  moreover have "width ds = Max (indeg ds ` {..<length ds})" by (rule width_Max [OF ne])
  ultimately show ?thesis by blast
qed

theorem upstream_table_round_trip_witness:
  "valid_ds [1, 2, 2] \<and>
   (\<exists>tbl. p_idxs_us [1, 2, 2] = Inr tbl \<and> tbl ! 2 = [1] \<and> tbl ! 1 = [0] \<and> tbl ! 0 = [mv])"
proof -
  have v: "valid_ds [1, 2, 2]"
    by (simp add: valid_ds_def in_range_def indeg_def ups_def mv_def)
  have w: "width [1, 2, 2] = 1" by (simp add: width_def indeg_def ups_def)
  have u: "ups [1, 2, 2] 2 = [1]" "ups [1, 2, 2] 1 = [0]" "ups [1, 2, 2] 0 = []"
    by (simp_all add: ups_def)
  from upstream_table_round_trip [OF v] obtain tbl where
    t: "p_idxs_us [1, 2, 2] = Inr tbl"
    and rows: "\<forall>j<length [1, 2, 2 :: nat].
               tbl ! j = ups [1, 2, 2] j @ replicate (width [1, 2, 2] - indeg [1, 2, 2] j) mv"
    by blast
  have r2: "tbl ! 2 = ups [1, 2, 2] 2 @ replicate (width [1, 2, 2] - indeg [1, 2, 2] 2) mv"
    and r1: "tbl ! 1 = ups [1, 2, 2] 1 @ replicate (width [1, 2, 2] - indeg [1, 2, 2] 1) mv"
    and r0: "tbl ! 0 = ups [1, 2, 2] 0 @ replicate (width [1, 2, 2] - indeg [1, 2, 2] 0) mv"
    using rows by simp_all
  have "tbl ! 2 = [1]" unfolding r2 indeg_def u w by simp
  moreover have "tbl ! 1 = [0]" unfolding r1 indeg_def u w by simp
  moreover have "tbl ! 0 = [mv]" unfolding r0 indeg_def u w by simp
  ultimately show ?thesis using v t by blast
qed

lemma p_idxs_us_zero_width:
  assumes ne: "ds \<noteq> []" and z: "\<forall>j<length ds. (of_nat (indeg ds j) :: u8) = 0"
  shows "p_idxs_us ds = Inr (replicate (length ds) [])"
proof -
  let ?n = "length ds"
  let ?cnts = "map (\<lambda>j. of_nat (indeg ds j) :: u8) [0..<?n]"
  have "?cnts = map (\<lambda>_. 0) [0..<?n]" using z by (intro map_cong) simp_all
  then have cz: "?cnts = replicate ?n 0" by (simp add: map_replicate_const)
  have c: "n_upstream ds = Inr (replicate ?n 0)"
    using n_upstream_counts_eq [of ds] unfolding cz .
  have "replicate ?n (0::u8) \<noteq> []" using ne by simp
  then have "amax (replicate ?n (0::u8)) = Inr (Max (set (replicate ?n 0)))" by (rule amax_Max)
  moreover have "set (replicate ?n (0::u8)) = {0}" using ne by simp
  ultimately have m: "amax (replicate ?n (0::u8)) = Inr 0" by simp
  have "p_idxs_us ds =
        Inr (reshape (?n, unat (0::u8))
               (idxs_us_loop ds [0..<?n] (unat (0::u8)) (map (\<lambda>_. 0) (replicate ?n (0::u8)))
                  (replicate (?n * unat (0::u8)) mv)))"
    by (simp only: p_idxs_us_def c m sum.case Let_def)
  moreover have "length (idxs_us_loop ds [0..<?n] (unat (0::u8)) (map (\<lambda>_. 0) (replicate ?n (0::u8)))
                  (replicate (?n * unat (0::u8)) mv)) = 0"
    by (simp add: length_idxs_us_loop)
  moreover have "reshape (?n, unat (0::u8)) flat = replicate ?n []" for flat :: "nat list"
    by (simp add: reshape_def map_replicate_const)
  ultimately show ?thesis by simp
qed

lemma ups_replicate_0: "0 < j \<Longrightarrow> ups (replicate n 0) j = []"
  by (auto simp: ups_def filter_empty_conv)

lemma indeg_replicate_0:
  fixes n :: nat
  assumes "0 < n"
  shows "indeg (replicate n 0) 0 = n - 1"
proof -
  from assms have "[0..<n] = 0 # [1..<n]" by (simp add: upt_conv_Cons)
  then have "ups (replicate n 0) 0 = filter (\<lambda>i. replicate n 0 ! i = 0 \<and> i \<noteq> 0) [1..<n]"
    by (simp add: ups_def)
  moreover have "filter (\<lambda>i. replicate n 0 ! i = 0 \<and> i \<noteq> 0) [1..<n] = [1..<n]"
    by (rule filter_True) simp
  ultimately have "ups (replicate n 0) 0 = [1..<n]" by (rule trans)
  then have "length (ups (replicate n 0) 0) = n - 1" by simp
  then show ?thesis by (simp only: indeg_def)
qed

text \<open>
  C2, as the specification states it, fails. In the downstream array of 257 cells that
  all target cell 0, cell 0 has 256 upstream cells and the 8-bit counter of cell 0 is 0
  again after the first scan. The table has rows of width 0: cell 1 is not a pit, and its
  target's row does not contain it; the width is not the largest in-degree.
\<close>

theorem upstream_table_star_257:
  "p_idxs_us (replicate 257 0) = Inr (replicate 257 []) \<and>
   replicate 257 0 ! 1 \<noteq> (1::nat) \<and>
   1 \<notin> set (replicate 257 [] ! (replicate 257 0 ! 1)) \<and>
   indeg (replicate 257 0) 0 = 256"
proof -
  have i0: "indeg (replicate 257 0) 0 = 256" by (simp add: indeg_replicate_0)
  have "(of_nat (indeg (replicate 257 0) j) :: u8) = 0" if "j < 257" for j
  proof (cases "j = 0")
    case True
    then show ?thesis by (simp add: i0)
  next
    case False
    then show ?thesis by (simp add: indeg_def ups_replicate_0)
  qed
  then have "p_idxs_us (replicate 257 0) = Inr (replicate (length (replicate 257 (0::nat))) [])"
    by (intro p_idxs_us_zero_width) simp_all
  then show ?thesis using i0 by simp
qed

text \<open>
  C9: the counter of \<^verbatim>\<open>n_upstream\<close> is an 8-bit unsigned integer. For every downstream
  array whose targets are cells, the count returned for a cell is its in-degree modulo
  256; when every in-degree is below 256 the counts are the in-degrees, and the maximum
  that the builder takes as the table width is the largest in-degree.
\<close>

theorem n_upstream_counter_8bit:
  assumes "in_range ds"
  shows "\<exists>cnts. n_upstream ds = Inr cnts \<and> length cnts = length ds \<and>
           (\<forall>j<length ds. unat (cnts ! j) = indeg ds j mod 256) \<and>
           ((\<forall>j<length ds. indeg ds j < 256) \<longrightarrow>
              map unat cnts = map (indeg ds) [0..<length ds] \<and>
              (ds \<noteq> [] \<longrightarrow>
                 (\<exists>m. amax cnts = Inr m \<and> unat m = Max (indeg ds ` {..<length ds}))))"
proof -
  let ?cnts = "map (\<lambda>j. of_nat (indeg ds j) :: u8) [0..<length ds]"
  have c: "n_upstream ds = Inr ?cnts"
    by (rule n_upstream_counts_eq)
  have m: "\<forall>j<length ds. unat (?cnts ! j) = indeg ds j mod 256"
    by (simp add: unat_of_nat take_bit_eq_mod)
  have e: "map unat ?cnts = map (indeg ds) [0..<length ds]"
    if "\<forall>j<length ds. indeg ds j < 256"
    using that by (simp add: unat_of_nat take_bit_nat_eq_self)
  have d: "\<exists>m. amax ?cnts = Inr m \<and> unat m = Max (indeg ds ` {..<length ds})"
    if small: "\<forall>j<length ds. indeg ds j < 256" and ne: "ds \<noteq> []"
  proof -
    have "?cnts \<noteq> []" using ne by simp
    then have "amax ?cnts = Inr (Max (set ?cnts))" by (rule amax_Max)
    moreover have "unat (Max (set ?cnts)) = Max (indeg ds ` {..<length ds})"
      using unat_Max_counts [OF ne small] by (simp only: width_Max [OF ne])
    ultimately show ?thesis by blast
  qed
  from c m e d show ?thesis by (intro exI [of _ ?cnts]) simp
qed

theorem n_upstream_counter_8bit_witness:
  "in_range (replicate 257 0) \<and> indeg (replicate 257 0) 0 = 256 \<and>
   (\<exists>cnts. n_upstream (replicate 257 0) = Inr cnts \<and> cnts ! 0 = 0)"
proof -
  have r: "in_range (replicate 257 0)" by (simp add: in_range_def list_all_length)
  have i: "indeg (replicate 257 0) 0 = 256" by (simp add: indeg_replicate_0)
  from n_upstream_counter_8bit [OF r] obtain cnts where
    c: "n_upstream (replicate 257 0) = Inr cnts"
    and m: "\<forall>j<length (replicate 257 (0::nat)). unat (cnts ! j) = indeg (replicate 257 0) j mod 256"
    by blast
  from m have "unat (cnts ! 0) = indeg (replicate 257 0) 0 mod 256" by simp
  then have "unat (cnts ! 0) = 0" by (simp add: i)
  then have "cnts ! 0 = 0" by (simp add: unat_eq_0)
  with r i c show ?thesis by blast
qed
section \<open>The downstream path\<close>

lemma hop_0: "hop ds 0 i = i"
  by (simp add: hop_def)

lemma hop_Suc: "hop ds (Suc k) i = hop ds k (ds ! i)"
  by (simp add: hop_def funpow_swap1)

lemma hop_Suc': "hop ds (Suc k) i = ds ! (hop ds k i)"
  by (simp add: hop_def)

lemma hop_in_range: "in_range ds \<Longrightarrow> i < length ds \<Longrightarrow> hop ds k i < length ds"
  by (induction k) (simp_all add: hop_0 hop_Suc' in_range_nth)

lemma downstream_path_loop_walk:
  assumes "in_range ds" and "length ds \<le> mv"
  shows "i < length ds \<Longrightarrow> ds ! (hop ds m i) = hop ds m i \<Longrightarrow>
         \<forall>k<m. ds ! (hop ds k i) \<noteq> hop ds k i \<Longrightarrow>
         downstream_path_loop ds i acc =
           Some (Inr (acc @ map (\<lambda>k. hop ds (Suc k) i) [0..<m]))"
proof (induction m arbitrary: i acc)
  case 0
  then show ?case
    by (subst downstream_path_loop.simps) (simp add: hop_0)
next
  case (Suc m)
  let ?j = "ds ! i"
  from Suc.prems(3) have np: "ds ! i \<noteq> i" by (auto simp: hop_0 dest: spec [of _ 0])
  have j: "?j < length ds" using assms(1) Suc.prems(1) by (rule in_range_nth)
  have pit: "ds ! (hop ds m ?j) = hop ds m ?j"
    using Suc.prems(2) by (simp add: hop_Suc)
  have before: "\<forall>k<m. ds ! (hop ds k ?j) \<noteq> hop ds k ?j"
  proof (intro allI impI)
    fix k assume "k < m"
    then have "Suc k < Suc m" by simp
    with Suc.prems(3) have "ds ! (hop ds (Suc k) i) \<noteq> hop ds (Suc k) i" by blast
    then show "ds ! (hop ds k ?j) \<noteq> hop ds k ?j" by (simp add: hop_Suc)
  qed
  have "?j < 4294967296" using j assms(2) by (simp add: mv_def)
  then have u: "u32 ?j = ?j" by (rule u32_id)
  have "downstream_path_loop ds i acc = downstream_path_loop ds ?j (acc @ [u32 ?j])"
    using np Suc.prems(1) by (subst downstream_path_loop.simps) auto
  also have "\<dots> = Some (Inr ((acc @ [?j]) @ map (\<lambda>k. hop ds (Suc k) ?j) [0..<m]))"
    unfolding u by (rule Suc.IH [OF j pit before])
  also have "(acc @ [?j]) @ map (\<lambda>k. hop ds (Suc k) ?j) [0..<m] =
             acc @ map (\<lambda>k. hop ds (Suc k) i) [0..<Suc m]"
  proof -
    have "map (\<lambda>k. hop ds (Suc k) i) [0..<Suc m] =
          hop ds (Suc 0) i # map (\<lambda>k. hop ds (Suc (Suc k)) i) [0..<m]"
      by (rule map_upt_Suc)
    moreover have "hop ds (Suc 0) i = ?j" by (simp add: hop_def)
    moreover have "map (\<lambda>k. hop ds (Suc (Suc k)) i) [0..<m] = map (\<lambda>k. hop ds (Suc k) ?j) [0..<m]"
      by (simp add: hop_Suc)
    ultimately show ?thesis by simp
  qed
  finally show ?case .
qed

text \<open>
  C8: in a downstream array whose targets are cells, from a starting cell whose \<open>m\<close>-th
  downstream cell is the first one that targets itself, \<^verbatim>\<open>downstream_path\<close> returns, and
  its result is the sequence of the visited cells, from the starting cell to that pit
  inclusive. Called on a pit it returns the pit alone.
\<close>

theorem downstream_path_to_pit:
  assumes "in_range ds" and "length ds \<le> mv" and "idx0 < length ds"
  shows "(ds ! (hop ds m idx0) = hop ds m idx0 \<and> (\<forall>k<m. ds ! (hop ds k idx0) \<noteq> hop ds k idx0)
            \<longrightarrow> downstream_path idx0 ds = Some (Inr (map (\<lambda>k. hop ds k idx0) [0..<Suc m]))) \<and>
         ((\<exists>k. ds ! (hop ds k idx0) = hop ds k idx0)
            \<longrightarrow> (\<exists>path. downstream_path idx0 ds = Some (Inr path) \<and> hd path = idx0 \<and>
                   ds ! (last path) = last path)) \<and>
         (ds ! idx0 = idx0 \<longrightarrow> downstream_path idx0 ds = Some (Inr [idx0]))"
proof -
  have main: "downstream_path idx0 ds = Some (Inr (map (\<lambda>k. hop ds k idx0) [0..<Suc n]))"
    if pit: "ds ! (hop ds n idx0) = hop ds n idx0"
      and before: "\<forall>k<n. ds ! (hop ds k idx0) \<noteq> hop ds k idx0" for n
  proof -
    have "downstream_path_loop ds idx0 [idx0] =
          Some (Inr ([idx0] @ map (\<lambda>k. hop ds (Suc k) idx0) [0..<n]))"
      using assms(3) pit before by (rule downstream_path_loop_walk [OF assms(1,2)])
    moreover have "[idx0] @ map (\<lambda>k. hop ds (Suc k) idx0) [0..<n] =
                   map (\<lambda>k. hop ds k idx0) [0..<Suc n]"
      unfolding map_upt_Suc by (simp add: hop_0)
    moreover have "map u32 (map (\<lambda>k. hop ds k idx0) [0..<Suc n]) =
                   map (\<lambda>k. hop ds k idx0) [0..<Suc n]"
    proof -
      have "u32 (hop ds k idx0) = hop ds k idx0" for k
      proof (rule u32_id)
        have "hop ds k idx0 < length ds" by (rule hop_in_range [OF assms(1,3)])
        with assms(2) show "hop ds k idx0 < 4294967296" by (simp add: mv_def)
      qed
      then show ?thesis by simp
    qed
    ultimately show ?thesis by (simp add: downstream_path_def del: upt_Suc)
  qed
  have reach: "\<exists>path. downstream_path idx0 ds = Some (Inr path) \<and> hd path = idx0 \<and>
                   ds ! (last path) = last path"
    if "\<exists>k. ds ! (hop ds k idx0) = hop ds k idx0"
  proof -
    define n where "n = (LEAST k. ds ! (hop ds k idx0) = hop ds k idx0)"
    from that have pit: "ds ! (hop ds n idx0) = hop ds n idx0"
      unfolding n_def by (rule LeastI_ex)
    have before: "\<forall>k<n. ds ! (hop ds k idx0) \<noteq> hop ds k idx0"
      unfolding n_def using not_less_Least by blast
    let ?p = "map (\<lambda>k. hop ds k idx0) [0..<Suc n]"
    have "downstream_path idx0 ds = Some (Inr ?p)" by (rule main [OF pit before])
    moreover have "hd ?p = idx0" unfolding map_upt_Suc by (simp add: hop_0)
    moreover have "last ?p = hop ds n idx0" by simp
    ultimately show ?thesis using pit by metis
  qed
  have "downstream_path idx0 ds = Some (Inr [idx0])" if "ds ! idx0 = idx0"
    using main [of 0] that by (simp add: hop_0)
  with main reach show ?thesis by blast
qed

theorem downstream_path_to_pit_witness:
  "in_range [1, 2, 2] \<and> downstream_path 0 [1, 2, 2] = Some (Inr [0, 1, 2]) \<and>
   downstream_path 2 [1, 2, 2] = Some (Inr [2])"
proof -
  have r: "in_range [1, 2, 2]" by (simp add: in_range_def)
  have l: "length [1, 2, 2 :: nat] \<le> mv" by (simp add: mv_def)
  have h: "hop [1, 2, 2] 0 0 = 0" "hop [1, 2, 2] (Suc 0) 0 = 1"
    "hop [1, 2, 2] (Suc (Suc 0)) 0 = 2"
    by (simp_all add: hop_def)
  have p: "[1, 2, 2] ! (hop [1, 2, 2] (Suc (Suc 0)) 0) = hop [1, 2, 2] (Suc (Suc 0)) 0"
    unfolding h by simp
  have b: "\<forall>k<Suc (Suc 0). [1, 2, 2] ! (hop [1, 2, 2] k 0) \<noteq> hop [1, 2, 2] k 0"
    using h by (auto simp: less_Suc_eq)
  have m: "map (\<lambda>k. hop [1, 2, 2] k 0) [0..<Suc (Suc (Suc 0))] = [0, 1, 2]"
    using h by (simp add: upt_conv_Cons del: upt_Suc)
  have a: "downstream_path 0 [1, 2, 2] = Some (Inr [0, 1, 2])"
    using downstream_path_to_pit [OF r l, of 0 "Suc (Suc 0)"] p b unfolding m by simp
  have c: "downstream_path 2 [1, 2, 2] = Some (Inr [2])"
    using downstream_path_to_pit [OF r l, of 2 0] by simp
  from r a c show ?thesis by blast
qed
section \<open>The main upstream cell\<close>

lemma left_packed_filter:
  "left_packed row \<Longrightarrow> filter (\<lambda>x. x \<noteq> mv) row = takeWhile (\<lambda>x. x \<noteq> mv) row"
proof (induction row)
  case Nil
  then show ?case by simp
next
  case (Cons x rest)
  show ?case
  proof (cases "x = mv")
    case True
    with Cons.prems have "\<forall>y\<in>set rest. y = mv"
      by (simp add: left_packed_def list_all_iff)
    then have "filter (\<lambda>x. x \<noteq> mv) rest = []" by (simp add: filter_empty_conv)
    with True show ?thesis by simp
  next
    case False
    with Cons.prems have "left_packed rest" by (simp add: left_packed_def)
    with Cons.IH False show ?thesis by simp
  qed
qed

lemma main_upstream_scan_result:
  assumes "\<forall>x\<in>set (takeWhile (\<lambda>x. x \<noteq> mv) row). x < length w"
  shows "\<exists>r. main_upstream_scan row w idx0 upa0 = Inr r \<and>
           ((r = idx0 \<and> (\<forall>y\<in>set (takeWhile (\<lambda>x. x \<noteq> mv) row). w ! y < upa0)) \<or>
            (\<exists>as bs. takeWhile (\<lambda>x. x \<noteq> mv) row = as @ r # bs \<and> upa0 \<le> w ! r \<and>
                     (\<forall>y\<in>set as. w ! y \<le> w ! r) \<and> (\<forall>y\<in>set bs. w ! y < w ! r)))"
  using assms
proof (induction row arbitrary: idx0 upa0)
  case Nil
  then show ?case by simp
next
  case (Cons x rest)
  let ?pre = "takeWhile (\<lambda>x. x \<noteq> mv) rest"
  show ?case
  proof (cases "x = mv")
    case True
    then show ?thesis by simp
  next
    case False
    with Cons.prems have xw: "x < length w" and restw: "\<forall>y\<in>set ?pre. y < length w"
      by simp_all
    have tw: "takeWhile (\<lambda>x. x \<noteq> mv) (x # rest) = x # ?pre" using False by simp
    show ?thesis
    proof (cases "upa0 \<le> w ! x")
      case True
      from Cons.IH [OF restw, of x "w ! x"] obtain r where
        run: "main_upstream_scan rest w x (w ! x) = Inr r"
        and alt: "(r = x \<and> (\<forall>y\<in>set ?pre. w ! y < w ! x)) \<or>
                  (\<exists>as bs. ?pre = as @ r # bs \<and> w ! x \<le> w ! r \<and>
                     (\<forall>y\<in>set as. w ! y \<le> w ! r) \<and> (\<forall>y\<in>set bs. w ! y < w ! r))"
        by blast
      have step: "main_upstream_scan (x # rest) w idx0 upa0 = Inr r"
        using False xw True run by simp
      from alt have "\<exists>as bs. x # ?pre = as @ r # bs \<and> upa0 \<le> w ! r \<and>
                     (\<forall>y\<in>set as. w ! y \<le> w ! r) \<and> (\<forall>y\<in>set bs. w ! y < w ! r)"
      proof
        assume a: "r = x \<and> (\<forall>y\<in>set ?pre. w ! y < w ! x)"
        then have "x # ?pre = [] @ r # ?pre \<and> upa0 \<le> w ! r \<and>
                     (\<forall>y\<in>set []. w ! y \<le> w ! r) \<and> (\<forall>y\<in>set ?pre. w ! y < w ! r)"
          using True by simp
        then show ?thesis by blast
      next
        assume "\<exists>as bs. ?pre = as @ r # bs \<and> w ! x \<le> w ! r \<and>
                     (\<forall>y\<in>set as. w ! y \<le> w ! r) \<and> (\<forall>y\<in>set bs. w ! y < w ! r)"
        then obtain as bs where s: "?pre = as @ r # bs" and xr: "w ! x \<le> w ! r"
          and l: "\<forall>y\<in>set as. w ! y \<le> w ! r" and g: "\<forall>y\<in>set bs. w ! y < w ! r"
          by blast
        have "x # ?pre = (x # as) @ r # bs \<and> upa0 \<le> w ! r \<and>
                     (\<forall>y\<in>set (x # as). w ! y \<le> w ! r) \<and> (\<forall>y\<in>set bs. w ! y < w ! r)"
          using s xr l g True by auto
        then show ?thesis by blast
      qed
      with step show ?thesis unfolding tw by blast
    next
      case lower: False
      from Cons.IH [OF restw, of idx0 upa0] obtain r where
        run: "main_upstream_scan rest w idx0 upa0 = Inr r"
        and alt: "(r = idx0 \<and> (\<forall>y\<in>set ?pre. w ! y < upa0)) \<or>
                  (\<exists>as bs. ?pre = as @ r # bs \<and> upa0 \<le> w ! r \<and>
                     (\<forall>y\<in>set as. w ! y \<le> w ! r) \<and> (\<forall>y\<in>set bs. w ! y < w ! r))"
        by blast
      have step: "main_upstream_scan (x # rest) w idx0 upa0 = Inr r"
        using False xw lower run by simp
      from alt have "(r = idx0 \<and> (\<forall>y\<in>set (x # ?pre). w ! y < upa0)) \<or>
                  (\<exists>as bs. x # ?pre = as @ r # bs \<and> upa0 \<le> w ! r \<and>
                     (\<forall>y\<in>set as. w ! y \<le> w ! r) \<and> (\<forall>y\<in>set bs. w ! y < w ! r))"
      proof
        assume "r = idx0 \<and> (\<forall>y\<in>set ?pre. w ! y < upa0)"
        then show ?thesis using lower by auto
      next
        assume "\<exists>as bs. ?pre = as @ r # bs \<and> upa0 \<le> w ! r \<and>
                     (\<forall>y\<in>set as. w ! y \<le> w ! r) \<and> (\<forall>y\<in>set bs. w ! y < w ! r)"
        then obtain as bs where s: "?pre = as @ r # bs" and ur: "upa0 \<le> w ! r"
          and l: "\<forall>y\<in>set as. w ! y \<le> w ! r" and g: "\<forall>y\<in>set bs. w ! y < w ! r"
          by blast
        have "x # ?pre = (x # as) @ r # bs \<and> upa0 \<le> w ! r \<and>
                     (\<forall>y\<in>set (x # as). w ! y \<le> w ! r) \<and> (\<forall>y\<in>set bs. w ! y < w ! r)"
          using s ur l g lower by auto
        then show ?thesis by blast
      qed
      with step show ?thesis unfolding tw by blast
    qed
  qed
qed

lemma p_main_upstream_result:
  assumes "i < length tbl" and "left_packed (tbl ! i)"
    and "\<forall>x\<in>set (tbl ! i). x = mv \<or> x < length w"
  shows "\<exists>r. p_main_upstream i tbl w minw = Inr r \<and>
           (r \<noteq> mv \<longrightarrow> minw \<le> w ! r \<and>
              (\<exists>as bs. filter (\<lambda>x. x \<noteq> mv) (tbl ! i) = as @ r # bs \<and>
                 (\<forall>y\<in>set as. w ! y \<le> w ! r) \<and> (\<forall>y\<in>set bs. w ! y < w ! r))) \<and>
           (r = mv \<longrightarrow> (\<forall>y\<in>set (filter (\<lambda>x. x \<noteq> mv) (tbl ! i)). w ! y < minw))"
proof -
  let ?pre = "takeWhile (\<lambda>x. x \<noteq> mv) (tbl ! i)"
  have f: "filter (\<lambda>x. x \<noteq> mv) (tbl ! i) = ?pre"
    by (rule left_packed_filter [OF assms(2)])
  have nomv: "mv \<notin> set ?pre" by (auto dest: set_takeWhileD)
  have "\<forall>x\<in>set ?pre. x < length w"
    using assms(3) by (auto dest: set_takeWhileD)
  from main_upstream_scan_result [OF this, of mv minw] obtain r where
    run: "main_upstream_scan (tbl ! i) w mv minw = Inr r"
    and alt: "(r = mv \<and> (\<forall>y\<in>set ?pre. w ! y < minw)) \<or>
              (\<exists>as bs. ?pre = as @ r # bs \<and> minw \<le> w ! r \<and>
                 (\<forall>y\<in>set as. w ! y \<le> w ! r) \<and> (\<forall>y\<in>set bs. w ! y < w ! r))"
    by blast
  have res: "p_main_upstream i tbl w minw = Inr r"
    using assms(1) run by (simp add: p_main_upstream_def)
  have a: "minw \<le> w ! r \<and>
              (\<exists>as bs. ?pre = as @ r # bs \<and>
                 (\<forall>y\<in>set as. w ! y \<le> w ! r) \<and> (\<forall>y\<in>set bs. w ! y < w ! r))"
    if "r \<noteq> mv"
    using alt that by blast
  have b: "\<forall>y\<in>set ?pre. w ! y < minw" if "r = mv"
  proof -
    have "\<not> (\<exists>as bs. ?pre = as @ r # bs)"
    proof
      assume "\<exists>as bs. ?pre = as @ r # bs"
      then have "r \<in> set ?pre" by auto
      with that nomv show False by simp
    qed
    with alt show ?thesis by blast
  qed
  from res a b show ?thesis unfolding f by blast
qed

lemma main_upstream_loop_result:
  assumes "\<forall>i\<in>set idxs. i < length tbl"
    and "\<forall>row\<in>set tbl. left_packed row \<and> (\<forall>x\<in>set row. x = mv \<or> x < length w)"
  shows "\<exists>rs. main_upstream_loop idxs tbl w minw = Inr rs \<and>
           list_all2 (\<lambda>i r. p_main_upstream i tbl w minw = Inr r) idxs rs"
  using assms(1)
proof (induction idxs)
  case Nil
  then show ?case by simp
next
  case (Cons i rest)
  then have i: "i < length tbl" by simp
  then have "tbl ! i \<in> set tbl" by simp
  with assms(2) have "left_packed (tbl ! i)" "\<forall>x\<in>set (tbl ! i). x = mv \<or> x < length w"
    by blast+
  from p_main_upstream_result [OF i this, of minw] obtain r where
    r: "p_main_upstream i tbl w minw = Inr r" by blast
  from Cons obtain rs where rs: "main_upstream_loop rest tbl w minw = Inr rs"
    and all: "list_all2 (\<lambda>i r. p_main_upstream i tbl w minw = Inr r) rest rs"
    by auto
  from r rs all show ?case by simp
qed

text \<open>
  C5: let the upstream table have left-packed rows whose entries are cells of the weight
  array or the missing value, and let the weight array have one weight per row. Then
  \<^verbatim>\<open>main_upstream\<close> returns one index per input cell. A returned index other than the
  missing value has a weight of at least \<open>minw\<close>, and it splits the entries of the
  cell's row so that no entry before it weighs more and every entry after it weighs
  strictly less: its weight is the largest of the row, and among equal largest weights it
  is the last entry. The missing value is returned only when every entry of the row weighs
  less than \<open>minw\<close>.
\<close>

theorem main_upstream_largest_last:
  assumes "length tbl = length w"
    and "\<forall>i\<in>set idxs. i < length tbl"
    and "\<forall>row\<in>set tbl. left_packed row \<and> (\<forall>x\<in>set row. x = mv \<or> x < length w)"
  shows "\<exists>rs. main_upstream idxs tbl w minw = Inr rs \<and> length rs = length idxs \<and>
           (\<forall>k<length idxs.
              (rs ! k \<noteq> mv \<longrightarrow> minw \<le> w ! (rs ! k) \<and>
                 (\<exists>as bs. filter (\<lambda>x. x \<noteq> mv) (tbl ! (idxs ! k)) = as @ rs ! k # bs \<and>
                    (\<forall>y\<in>set as. w ! y \<le> w ! (rs ! k)) \<and>
                    (\<forall>y\<in>set bs. w ! y < w ! (rs ! k)))) \<and>
              (rs ! k = mv \<longrightarrow>
                 (\<forall>y\<in>set (filter (\<lambda>x. x \<noteq> mv) (tbl ! (idxs ! k))). w ! y < minw)))"
proof -
  from main_upstream_loop_result [OF assms(2,3), of minw] obtain rs where
    run: "main_upstream_loop idxs tbl w minw = Inr rs"
    and all: "list_all2 (\<lambda>i r. p_main_upstream i tbl w minw = Inr r) idxs rs"
    by blast
  have len: "length rs = length idxs" using all by (simp add: list_all2_lengthD)
  have res: "main_upstream idxs tbl w minw = Inr rs"
    using assms(1) run by (simp add: main_upstream_def)
  have each: "(rs ! k \<noteq> mv \<longrightarrow> minw \<le> w ! (rs ! k) \<and>
                 (\<exists>as bs. filter (\<lambda>x. x \<noteq> mv) (tbl ! (idxs ! k)) = as @ rs ! k # bs \<and>
                    (\<forall>y\<in>set as. w ! y \<le> w ! (rs ! k)) \<and>
                    (\<forall>y\<in>set bs. w ! y < w ! (rs ! k)))) \<and>
              (rs ! k = mv \<longrightarrow>
                 (\<forall>y\<in>set (filter (\<lambda>x. x \<noteq> mv) (tbl ! (idxs ! k))). w ! y < minw))"
    if k: "k < length idxs" for k
  proof -
    have i: "idxs ! k < length tbl" using assms(2) k by simp
    then have "tbl ! (idxs ! k) \<in> set tbl" by simp
    with assms(3) have lp: "left_packed (tbl ! (idxs ! k))"
      and ok: "\<forall>x\<in>set (tbl ! (idxs ! k)). x = mv \<or> x < length w"
      by blast+
    have "p_main_upstream (idxs ! k) tbl w minw = Inr (rs ! k)"
      using all k by (simp add: list_all2_conv_all_nth)
    with p_main_upstream_result [OF i lp ok, of minw] show ?thesis by simp
  qed
  from res len each show ?thesis by blast
qed

theorem main_upstream_largest_last_witness:
  "main_upstream [0, 1] [[1, 2, 3], [mv, mv, mv], [mv, mv, mv], [mv, mv, mv]]
     [5, 7, 7, 1 :: int] 2 = Inr [2, mv]"
proof -
  let ?tbl = "[[1, 2, 3], [mv, mv, mv], [mv, mv, mv], [mv, mv, mv]]"
  let ?w = "[5, 7, 7, 1 :: int]"
  have a: "length ?tbl = length ?w" by simp
  have b: "\<forall>i\<in>set [0, 1 :: nat]. i < length ?tbl" by simp
  have c: "\<forall>row\<in>set ?tbl. left_packed row \<and> (\<forall>x\<in>set row. x = mv \<or> x < length ?w)"
    by (simp add: left_packed_def mv_def)
  from main_upstream_largest_last [OF a b c, of 2] obtain rs where
    "main_upstream [0, 1] ?tbl ?w 2 = Inr rs" by blast
  moreover have "main_upstream [0, 1] ?tbl ?w 2 = Inr [2, mv]"
    by (simp add: main_upstream_def p_main_upstream_def mv_def)
  ultimately show ?thesis by simp
qed
section \<open>Dense and sparse indices\<close>

lemma norm_index_nonneg: "0 \<le> i \<Longrightarrow> i < int n \<Longrightarrow> norm_index n i = Inr (nat i)"
  by (simp add: norm_index_def)

lemma put_dense_error: "put_dense arr ivs = Inl e \<Longrightarrow> e = IndexError"
proof (induction ivs arbitrary: arr)
  case Nil
  then show ?case by simp
next
  case (Cons p rest)
  obtain i v where p: "p = (i, v)" by (cases p)
  show ?case
  proof (cases "norm_index (length arr) i")
    case (Inl e')
    then have "e' = IndexError" by (simp add: norm_index_def split: if_splits)
    with Cons.prems Inl p show ?thesis by simp
  next
    case (Inr k)
    with Cons.prems p have "put_dense (arr[k := v]) rest = Inl e" by simp
    then show ?thesis by (rule Cons.IH)
  qed
qed

lemma put_dense_distinct:
  assumes "\<forall>i\<in>set (map fst ivs). 0 \<le> i \<and> i < int (length arr)"
    and "distinct (map fst ivs)"
  shows "\<exists>arr'. put_dense arr ivs = Inr arr' \<and> length arr' = length arr \<and>
           (\<forall>j<length arr. arr' ! j = (case map_of ivs (int j) of None \<Rightarrow> arr ! j | Some v \<Rightarrow> v))"
  using assms
proof (induction ivs arbitrary: arr)
  case Nil
  then show ?case by simp
next
  case (Cons p rest)
  obtain i v where p: "p = (i, v)" by (cases p)
  from Cons.prems p have i: "0 \<le> i" "i < int (length arr)" by simp_all
  from Cons.prems p have fresh: "i \<notin> fst ` set rest" and d: "distinct (map fst rest)"
    by simp_all
  let ?arr1 = "arr[nat i := v]"
  have "\<forall>i\<in>set (map fst rest). 0 \<le> i \<and> i < int (length ?arr1)"
    using Cons.prems(1) by simp
  from Cons.IH [OF this d] obtain arr' where
    run: "put_dense ?arr1 rest = Inr arr'" and len: "length arr' = length arr"
    and nth: "\<forall>j<length arr. arr' ! j = (case map_of rest (int j) of None \<Rightarrow> ?arr1 ! j | Some v \<Rightarrow> v)"
    by auto
  have step: "put_dense arr (p # rest) = Inr arr'"
    using i run by (simp add: p norm_index_nonneg)
  have "arr' ! j = (case map_of (p # rest) (int j) of None \<Rightarrow> arr ! j | Some v \<Rightarrow> v)"
    if j: "j < length arr" for j
  proof (cases "int j = i")
    case True
    then have "map_of rest (int j) = None" using fresh by (simp add: map_of_eq_None_iff)
    moreover have "j = nat i" using True by simp
    ultimately show ?thesis using nth j True by (simp add: p)
  next
    case False
    then have "nat i \<noteq> j" using i by auto
    then have "?arr1 ! j = arr ! j" by simp
    then show ?thesis using nth j False by (simp add: p split: option.splits)
  qed
  with step len show ?case by blast
qed

lemma valid_dense_nth:
  "valid_dense dense sz \<Longrightarrow> p < length dense \<Longrightarrow> 0 \<le> dense ! p \<and> dense ! p < int sz"
  by (simp add: valid_dense_def list_all_length)

lemma p_sparse_idx_valid:
  assumes v: "valid_dense dense sz" and ok: "\<forall>x\<in>set idxs. 0 \<le> x \<and> x < int sz"
  shows "\<exists>r. p_sparse_idx idxs dense sz = Inr r \<and> length r = length idxs \<and>
           (\<forall>k<length idxs.
              (idxs ! k \<notin> set dense \<longrightarrow> r ! k = mv) \<and>
              (\<forall>p<length dense. dense ! p = idxs ! k \<longrightarrow> r ! k = p))"
proof -
  let ?n = "length dense"
  let ?pos = "map u32 [0..<?n]"
  let ?ivs = "zip dense ?pos"
  from v have d: "distinct dense" and small: "?n \<le> mv"
    and rng: "\<forall>x\<in>set dense. 0 \<le> x \<and> x < int sz"
    by (simp_all add: valid_dense_def list_all_iff)
  have fst: "map fst ?ivs = dense" by simp
  have "\<forall>i\<in>set (map fst ?ivs). 0 \<le> i \<and> i < int (length (replicate sz mv))"
    unfolding fst using rng by simp
  moreover have "distinct (map fst ?ivs)" unfolding fst by (rule d)
  ultimately obtain arr' where
    run: "put_dense (replicate sz mv) ?ivs = Inr arr'"
    and nth: "\<forall>j<length (replicate sz mv).
                arr' ! j = (case map_of ?ivs (int j) of None \<Rightarrow> replicate sz mv ! j | Some v \<Rightarrow> v)"
    using put_dense_distinct [of ?ivs "replicate sz mv"] by blast
  let ?r = "map (\<lambda>i. arr' ! nat i) idxs"
  have chk: "\<not> (list_ex (\<lambda>i. i < 0) idxs \<or> list_ex (\<lambda>i. i \<ge> int sz) idxs)"
    using ok by (auto simp: list_ex_iff)
  have res: "p_sparse_idx idxs dense sz = Inr ?r"
    using chk run by (simp add: p_sparse_idx_def)
  have each: "(idxs ! k \<notin> set dense \<longrightarrow> ?r ! k = mv) \<and>
              (\<forall>p<length dense. dense ! p = idxs ! k \<longrightarrow> ?r ! k = p)"
    if k: "k < length idxs" for k
  proof -
    let ?j = "nat (idxs ! k)"
    from ok k have x: "0 \<le> idxs ! k" "idxs ! k < int sz" by simp_all
    then have j: "?j < sz" and ij: "int ?j = idxs ! k" by simp_all
    have "?j < length (replicate sz mv)" using j by simp
    with nth have "arr' ! ?j =
        (case map_of ?ivs (int ?j) of None \<Rightarrow> replicate sz mv ! ?j | Some v \<Rightarrow> v)"
      by blast
    then have a: "arr' ! ?j = (case map_of ?ivs (idxs ! k) of None \<Rightarrow> mv | Some v \<Rightarrow> v)"
      unfolding ij nth_replicate [OF j] .
    have none: "arr' ! ?j = mv" if "idxs ! k \<notin> set dense"
    proof -
      have "map_of ?ivs (idxs ! k) = None" using that by (simp add: map_of_zip_is_None)
      with a show ?thesis by simp
    qed
    have some: "arr' ! ?j = p" if p: "p < length dense" and e: "dense ! p = idxs ! k" for p
    proof -
      have "map_of ?ivs (dense ! p) = Some (?pos ! p)"
        using d p by (intro map_of_zip_nth) simp_all
      moreover have "?pos ! p = p" using p small by (simp add: u32_def mv_def)
      ultimately show ?thesis using a e by simp
    qed
    from none some k show ?thesis by simp
  qed
  from res each show ?thesis by (intro exI [of _ ?r]) simp
qed

text \<open>
  C7: \<^verbatim>\<open>_sparse_idx\<close> raises the out-of-bounds error exactly when some input index is
  negative or not below the raster size. With a well-formed list of valid cells and no
  input index out of range it returns one sparse index per input: the missing value for an
  input that is not listed, and for a listed input its position in the list.
\<close>

theorem sparse_idx_out_of_range_iff:
  "(p_sparse_idx idxs dense sz = Inl IndexOutOfBounds \<longleftrightarrow> (\<exists>x\<in>set idxs. x < 0 \<or> int sz \<le> x)) \<and>
   (valid_dense dense sz \<and> (\<forall>x\<in>set idxs. 0 \<le> x \<and> x < int sz) \<longrightarrow>
      (\<exists>r. p_sparse_idx idxs dense sz = Inr r \<and> length r = length idxs \<and>
         (\<forall>k<length idxs.
            (idxs ! k \<notin> set dense \<longrightarrow> r ! k = mv) \<and>
            (\<forall>p<length dense. dense ! p = idxs ! k \<longrightarrow> r ! k = p))))"
proof -
  have a: "p_sparse_idx idxs dense sz = Inl IndexOutOfBounds"
    if "\<exists>x\<in>set idxs. x < 0 \<or> int sz \<le> x"
    using that by (auto simp: p_sparse_idx_def list_ex_iff)
  have b: "\<exists>x\<in>set idxs. x < 0 \<or> int sz \<le> x"
    if r: "p_sparse_idx idxs dense sz = Inl IndexOutOfBounds"
  proof (rule ccontr)
    assume n: "\<not> (\<exists>x\<in>set idxs. x < 0 \<or> int sz \<le> x)"
    then have chk: "\<not> (list_ex (\<lambda>i. i < 0) idxs \<or> list_ex (\<lambda>i. i \<ge> int sz) idxs)"
      by (auto simp: list_ex_iff)
    show False
    proof (cases "put_dense (replicate sz mv) (zip dense (map u32 [0..<length dense]))")
      case (Inl e)
      then have "e = IndexError" by (rule put_dense_error)
      with Inl chk r show False by (simp add: p_sparse_idx_def)
    next
      case (Inr arr')
      with chk r show False by (simp add: p_sparse_idx_def)
    qed
  qed
  from a b p_sparse_idx_valid [of dense sz idxs] show ?thesis by blast
qed

theorem sparse_idx_out_of_range_iff_witness:
  "valid_dense [1, 3] 4 \<and> p_sparse_idx [0, 1, 3] [1, 3] 4 = Inr [mv, 0, 1] \<and>
   p_sparse_idx [0, 4] [1, 3] 4 = Inl IndexOutOfBounds"
proof -
  have v: "valid_dense [1, 3] 4" by (simp add: valid_dense_def mv_def)
  have "\<exists>x\<in>set [0, 4 :: int]. x < 0 \<or> int 4 \<le> x" by simp
  with sparse_idx_out_of_range_iff [of "[0, 4]" "[1, 3]" 4]
  have e: "p_sparse_idx [0, 4] [1, 3] 4 = Inl IndexOutOfBounds" by blast
  have "p_sparse_idx [0, 1, 3] [1, 3] 4 = Inr [mv, 0, 1]"
    by (simp add: p_sparse_idx_def norm_index_def u32_def)
  with v e show ?thesis by blast
qed
section \<open>Dense raster of sparse values\<close>

text \<open>
  C6, as the source behaves: for a well-formed list of valid cells of a raster with
  \<open>nrow * ncol\<close> cells and one value per valid cell, \<^verbatim>\<open>_densify\<close> returns a raster of
  \<open>nrow\<close> rows of \<open>ncol\<close> cells; reading that raster at the dense indices of the valid
  cells gives the sparse values back, every other cell holds the no-data value, and
  \<^verbatim>\<open>_sparse_idx\<close> sends the dense indices of the valid cells to \<open>0, \<dots>, n - 1\<close>, the
  positions of their values.
\<close>

theorem densify_read_back:
  assumes "valid_dense dense (nrow * ncol)" and "length v = length dense"
  shows "\<exists>grid. p_densify v dense (nrow, ncol) nodata = Inr grid \<and>
           length grid = nrow \<and> (\<forall>row\<in>set grid. length row = ncol) \<and>
           map (\<lambda>d. concat grid ! nat d) dense = v \<and>
           (\<forall>j<nrow * ncol. int j \<notin> set dense \<longrightarrow> concat grid ! j = nodata) \<and>
           p_sparse_idx dense dense (nrow * ncol) = Inr [0..<length v]"
proof -
  let ?sz = "nrow * ncol"
  let ?ivs = "zip dense v"
  from assms(1) have d: "distinct dense"
    and rng: "\<forall>x\<in>set dense. 0 \<le> x \<and> x < int ?sz"
    by (simp_all add: valid_dense_def list_all_iff)
  have fst: "map fst ?ivs = dense" using assms(2) by simp
  have "\<forall>i\<in>set (map fst ?ivs). 0 \<le> i \<and> i < int (length (replicate ?sz nodata))"
    unfolding fst using rng by simp
  moreover have "distinct (map fst ?ivs)" unfolding fst by (rule d)
  ultimately obtain flat where
    run: "put_dense (replicate ?sz nodata) ?ivs = Inr flat"
    and len: "length flat = length (replicate ?sz nodata)"
    and nth: "\<forall>j<length (replicate ?sz nodata).
                flat ! j = (case map_of ?ivs (int j) of None \<Rightarrow> replicate ?sz nodata ! j | Some x \<Rightarrow> x)"
    using put_dense_distinct [of ?ivs "replicate ?sz nodata"] by blast
  have flen: "length flat = ?sz" using len by simp
  let ?grid = "reshape (nrow, ncol) flat"
  have res: "p_densify v dense (nrow, ncol) nodata = Inr ?grid"
    using assms(2) run by (simp add: p_densify_def)
  have cat: "concat ?grid = flat" using flen by (simp add: concat_reshape_take)
  have at: "flat ! j = (case map_of ?ivs (int j) of None \<Rightarrow> nodata | Some x \<Rightarrow> x)"
    if j: "j < ?sz" for j
  proof -
    have "j < length (replicate ?sz nodata)" using j by simp
    with nth have "flat ! j =
        (case map_of ?ivs (int j) of None \<Rightarrow> replicate ?sz nodata ! j | Some x \<Rightarrow> x)"
      by blast
    then show ?thesis unfolding nth_replicate [OF j] .
  qed
  have readv: "map (\<lambda>d. flat ! nat d) dense = v"
  proof (rule nth_equalityI)
    show "length (map (\<lambda>d. flat ! nat d) dense) = length v" using assms(2) by simp
  next
    fix p assume "p < length (map (\<lambda>d. flat ! nat d) dense)"
    then have p: "p < length dense" by simp
    from valid_dense_nth [OF assms(1) p]
    have lo: "0 \<le> dense ! p" and hi: "dense ! p < int ?sz" by blast+
    from lo have ij: "int (nat (dense ! p)) = dense ! p" by simp
    from lo hi have j: "nat (dense ! p) < ?sz" by (simp only: nat_less_iff)
    have "map_of ?ivs (dense ! p) = Some (v ! p)"
      using d p assms(2) by (intro map_of_zip_nth) simp_all
    with at [OF j] have "flat ! nat (dense ! p) = v ! p" unfolding ij by simp
    then show "map (\<lambda>d. flat ! nat d) dense ! p = v ! p" using p by simp
  qed
  have other: "\<forall>j<?sz. int j \<notin> set dense \<longrightarrow> flat ! j = nodata"
  proof (intro allI impI)
    fix j assume j: "j < ?sz" and n: "int j \<notin> set dense"
    have "map_of ?ivs (int j) = None" using n assms(2) by (simp add: map_of_zip_is_None)
    with at [OF j] show "flat ! j = nodata" by simp
  qed
  have sp: "p_sparse_idx dense dense ?sz = Inr [0..<length v]"
  proof -
    from p_sparse_idx_valid [OF assms(1) rng] obtain r where
      r: "p_sparse_idx dense dense ?sz = Inr r" and lr: "length r = length dense"
      and pos: "\<forall>k<length dense. \<forall>p<length dense. dense ! p = dense ! k \<longrightarrow> r ! k = p"
      by blast
    have "r = [0..<length v]"
      using lr assms(2) pos by (intro nth_equalityI) auto
    with r show ?thesis by simp
  qed
  have readg: "map (\<lambda>d. concat ?grid ! nat d) dense = v"
    unfolding cat by (rule readv)
  have otherg: "\<forall>j<?sz. int j \<notin> set dense \<longrightarrow> concat ?grid ! j = nodata"
    unfolding cat by (rule other)
  from res reshape_rows [OF flen] readg otherg sp show ?thesis by blast
qed

theorem densify_read_back_witness:
  "valid_dense [1, 3] (2 * 2) \<and>
   p_densify [10, 20 :: int] [1, 3] (2, 2) (- 9999) = Inr [[- 9999, 10], [- 9999, 20]] \<and>
   p_sparse_idx [1, 3] [1, 3] (2 * 2) = Inr [0, 1]"
proof -
  have v: "valid_dense [1, 3] (2 * 2)" by (simp add: valid_dense_def mv_def)
  have l: "length [10, 20 :: int] = length [1, 3 :: int]" by simp
  from densify_read_back [OF v l, of "- 9999"]
  have "p_sparse_idx [1, 3] [1, 3] (2 * 2) = Inr [0..<length [10, 20 :: int]]" by blast
  then have s: "p_sparse_idx [1, 3] [1, 3] (2 * 2) = Inr [0, 1]"
    by (simp add: upt_conv_Cons)
  have g: "p_densify [10, 20 :: int] [1, 3] (2, 2) (- 9999) = Inr [[- 9999, 10], [- 9999, 20]]"
    by (simp add: p_densify_def norm_index_def reshape_def upt_conv_Cons eval_nat_numeral)
  from v g s show ?thesis by blast
qed

text \<open>
  C6, as the specification states it, fails: translating the cells of the dense raster of
  the sparse value \<open>5\<close> as dense indices raises the out-of-bounds error instead of
  giving the value back.
\<close>

theorem dense_then_sparse_fails:
  "dense_then_sparse [5] [0] (1, 1) (- 9999) 1 = Inl IndexOutOfBounds"
  by (simp add: dense_then_sparse_def p_densify_def p_sparse_idx_def norm_index_def reshape_def)
section \<open>The downstream length\<close>

lemma hypot_swap_iff:
  "(\<forall>dr dc :: real. hypot (x * dr) (y * dc) = hypot (y * dr) (x * dc)) \<longleftrightarrow> \<bar>x\<bar> = \<bar>y\<bar>"
proof
  assume "\<forall>dr dc :: real. hypot (x * dr) (y * dc) = hypot (y * dr) (x * dc)"
  then have "hypot (x * 1) (y * 0) = hypot (y * 1) (x * 0)" by blast
  then show "\<bar>x\<bar> = \<bar>y\<bar>" by (simp add: hypot_def)
next
  assume a: "\<bar>x\<bar> = \<bar>y\<bar>"
  then have "x * x = y * y" by (metis abs_mult_self_eq)
  then have "(x * dr) * (x * dr) + (y * dc) * (y * dc) =
             (y * dr) * (y * dr) + (x * dc) * (x * dc)" for dr dc :: real
    by (simp add: algebra_simps)
  then show "\<forall>dr dc :: real. hypot (x * dr) (y * dc) = hypot (y * dr) (x * dc)"
    by (simp add: hypot_def)
qed


lemma unit_sq: "\<bar>x\<bar> = 1 \<Longrightarrow> x * x = (1::int)"
  by (metis abs_mult_self_eq mult.right_neutral)

lemma adjacent_sq: "\<bar>dr\<bar> + \<bar>dc\<bar> = 1 \<Longrightarrow> dr * dr + dc * dc = (1::int)"
proof -
  assume "\<bar>dr\<bar> + \<bar>dc\<bar> = 1"
  then have "(\<bar>dr\<bar> = 1 \<and> dc = 0) \<or> (dr = 0 \<and> \<bar>dc\<bar> = 1)" by arith
  then show ?thesis using unit_sq by auto
qed

lemma hypot_of_int:
  "hypot (1 * real_of_int dr) (1 * real_of_int dc) = sqrt (real_of_int (dr * dr + dc * dc))"
  by (simp add: hypot_def)

text \<open>
  C10: in the planar case (\<open>latlon\<close> false), for cells inside the arrays and a raster with a
  non-zero number of columns, \<^verbatim>\<open>downstream_length\<close> returns the downstream cell and the
  length \<open>hypot (xres * drow) (yres * dcol)\<close>, where \<open>xres\<close> is coefficient 0 and \<open>yres\<close>
  coefficient 4 of the affine transform, \<open>drow\<close> the difference of the rows and \<open>dcol\<close> the
  difference of the columns of the two cells. Exchanging the two resolutions leaves the
  length of every move unchanged exactly when they have the same magnitude. With the
  identity transform a move to an adjacent row or column has length 1 and a diagonal move
  has length \<open>sqrt 2\<close>.
\<close>

theorem downstream_length_planar:
  assumes "idx0 < length ds" and "idx0 < length dense" and "ds ! idx0 < length dense"
    and "ncol \<noteq> 0"
  shows "downstream_length dmy dmx idx0 ds dense ncol False aff =
           Inr (ds ! idx0,
                hypot (coef0 aff * real_of_int (dense ! idx0 div ncol - dense ! (ds ! idx0) div ncol))
                      (coef4 aff * real_of_int (dense ! idx0 mod ncol - dense ! (ds ! idx0) mod ncol))) \<and>
         ((\<forall>dr dc :: real. hypot (coef0 aff * dr) (coef4 aff * dc) =
                            hypot (coef4 aff * dr) (coef0 aff * dc))
            \<longleftrightarrow> \<bar>coef0 aff\<bar> = \<bar>coef4 aff\<bar>) \<and>
         (\<forall>dr dc :: int. \<bar>dr\<bar> + \<bar>dc\<bar> = 1 \<longrightarrow>
            hypot (coef0 IDENTITY * real_of_int dr) (coef4 IDENTITY * real_of_int dc) = 1) \<and>
         (\<forall>dr dc :: int. \<bar>dr\<bar> = 1 \<and> \<bar>dc\<bar> = 1 \<longrightarrow>
            hypot (coef0 IDENTITY * real_of_int dr) (coef4 IDENTITY * real_of_int dc) = sqrt 2)"
proof -
  have a: "downstream_length dmy dmx idx0 ds dense ncol False aff =
           Inr (ds ! idx0,
                hypot (coef0 aff * real_of_int (dense ! idx0 div ncol - dense ! (ds ! idx0) div ncol))
                      (coef4 aff * real_of_int (dense ! idx0 mod ncol - dense ! (ds ! idx0) mod ncol)))"
    using assms by (simp add: downstream_length_def downstream_def Let_def)
  have b: "(\<forall>dr dc :: real. hypot (coef0 aff * dr) (coef4 aff * dc) =
                            hypot (coef4 aff * dr) (coef0 aff * dc))
            \<longleftrightarrow> \<bar>coef0 aff\<bar> = \<bar>coef4 aff\<bar>"
    by (rule hypot_swap_iff)
  have i: "coef0 IDENTITY = 1" "coef4 IDENTITY = 1" by (simp_all add: IDENTITY_def)
  have c: "hypot (coef0 IDENTITY * real_of_int dr) (coef4 IDENTITY * real_of_int dc) = 1"
    if "\<bar>dr\<bar> + \<bar>dc\<bar> = 1" for dr dc :: int
    unfolding i hypot_of_int adjacent_sq [OF that] by simp
  have d: "hypot (coef0 IDENTITY * real_of_int dr) (coef4 IDENTITY * real_of_int dc) = sqrt 2"
    if "\<bar>dr\<bar> = 1 \<and> \<bar>dc\<bar> = 1" for dr dc :: int
  proof -
    from that have "dr * dr = 1" "dc * dc = 1" by (simp_all add: unit_sq)
    then have "dr * dr + dc * dc = 2" by simp
    then show ?thesis unfolding i hypot_of_int by simp
  qed
  from a b c d show ?thesis by blast
qed

theorem downstream_length_planar_witness:
  "downstream_length (\<lambda>x. x) (\<lambda>x. x) 0 [1, 1] [0, 1] 2 False IDENTITY = Inr (1, 1)"
proof -
  have h: "(0::nat) < length [1, 1 :: nat]" "(0::nat) < length [0, 1 :: int]"
    "[1, 1 :: nat] ! 0 < length [0, 1 :: int]" "(2::int) \<noteq> 0"
    by simp_all
  have "downstream_length (\<lambda>x. x) (\<lambda>x. x) 0 [1, 1] [0, 1] 2 False IDENTITY =
        Inr ([1, 1] ! 0,
             hypot (coef0 IDENTITY * real_of_int ([0, 1] ! 0 div 2 - [0, 1] ! ([1, 1] ! 0) div 2))
                   (coef4 IDENTITY * real_of_int ([0, 1] ! 0 mod 2 - [0, 1] ! ([1, 1] ! 0) mod 2)))"
    using downstream_length_planar [OF h, of "\<lambda>x. x" "\<lambda>x. x" IDENTITY] by blast
  also have "\<dots> = Inr (1, 1)" by (simp add: hypot_def IDENTITY_def)
  finally show ?thesis .
qed
section \<open>Levels of the network tree\<close>

lemma distinct_concat_map:
  "distinct xs \<Longrightarrow> (\<forall>x\<in>set xs. distinct (f x)) \<Longrightarrow>
   (\<forall>x\<in>set xs. \<forall>y\<in>set xs. x \<noteq> y \<longrightarrow> set (f x) \<inter> set (f y) = {}) \<Longrightarrow>
   distinct (concat (map f xs))"
proof (induction xs)
  case Nil
  then show ?case by simp
next
  case (Cons x xs)
  then have "distinct (concat (map f xs))" by simp
  moreover have "distinct (f x)" using Cons.prems by simp
  moreover have "set (f x) \<inter> set (f y) = {}" if "y \<in> set xs" for y
    using Cons.prems that by auto
  ultimately show ?case by auto
qed

lemma distinct_concat_nth:
  "distinct (concat xs) \<Longrightarrow> i < length xs \<Longrightarrow>
   distinct (xs ! i) \<and> (\<forall>j<length xs. i \<noteq> j \<longrightarrow> set (xs ! i) \<inter> set (xs ! j) = {})"
proof (induction xs arbitrary: i)
  case Nil
  then show ?case by simp
next
  case (Cons x xs)
  from Cons.prems(1) have dx: "distinct x" and dxs: "distinct (concat xs)"
    and sep: "\<forall>ys\<in>set xs. set x \<inter> set ys = {}"
    by auto
  show ?case
  proof (cases i)
    case 0
    have "set x \<inter> set ((x # xs) ! j) = {}" if "j < length (x # xs)" "0 \<noteq> j" for j
    proof -
      from that obtain j' where j': "j = Suc j'" "j' < length xs" by (cases j) auto
      then have "xs ! j' \<in> set xs" by simp
      with sep j' show ?thesis by simp
    qed
    with 0 dx show ?thesis by simp
  next
    case (Suc i')
    with Cons.prems(2) have i': "i' < length xs" by simp
    from Cons.IH [OF dxs i'] have di: "distinct (xs ! i')"
      and oth: "\<forall>j<length xs. i' \<noteq> j \<longrightarrow> set (xs ! i') \<inter> set (xs ! j) = {}"
      by blast+
    have "set (xs ! i') \<inter> set ((x # xs) ! j) = {}" if "j < length (x # xs)" "Suc i' \<noteq> j" for j
    proof (cases j)
      case 0
      have "xs ! i' \<in> set xs" using i' by simp
      with sep 0 show ?thesis by auto
    next
      case (Suc j')
      with that oth show ?thesis by simp
    qed
    with Suc di show ?thesis by simp
  qed
qed

lemma forest_rows:
  assumes ft: "forest_table n pits tbl" and j: "j < n"
  shows "distinct (filter (\<lambda>x. x \<noteq> mv) (tbl ! j))"
    and "\<forall>j'<n. j \<noteq> j' \<longrightarrow>
           set (filter (\<lambda>x. x \<noteq> mv) (tbl ! j)) \<inter> set (filter (\<lambda>x. x \<noteq> mv) (tbl ! j')) = {}"
    and "\<forall>x\<in>set (filter (\<lambda>x. x \<noteq> mv) (tbl ! j)). x < n \<and> x \<notin> set pits"
proof -
  let ?rows = "map (filter (\<lambda>x. x \<noteq> mv)) tbl"
  from ft have len: "length tbl = n"
    and d: "distinct (filter (\<lambda>x. x \<noteq> mv) (concat tbl))"
    and ent: "\<forall>x\<in>set (concat tbl). x = mv \<or> (x < n \<and> x \<notin> set pits)"
    by (simp_all add: forest_table_def list_all_iff)
  have "distinct (concat ?rows)" using d by (simp add: filter_concat)
  moreover have jl: "j < length ?rows" using j len by simp
  ultimately have a: "distinct (?rows ! j)"
    and b: "\<forall>j'<length ?rows. j \<noteq> j' \<longrightarrow> set (?rows ! j) \<inter> set (?rows ! j') = {}"
    using distinct_concat_nth [of ?rows j] by blast+
  from a j len show "distinct (filter (\<lambda>x. x \<noteq> mv) (tbl ! j))" by simp
  from b len j show "\<forall>j'<n. j \<noteq> j' \<longrightarrow>
           set (filter (\<lambda>x. x \<noteq> mv) (tbl ! j)) \<inter> set (filter (\<lambda>x. x \<noteq> mv) (tbl ! j')) = {}"
    by simp
  have "tbl ! j \<in> set tbl" using j len by simp
  then have "set (tbl ! j) \<subseteq> set (concat tbl)" by auto
  with ent show "\<forall>x\<in>set (filter (\<lambda>x. x \<noteq> mv) (tbl ! j)). x < n \<and> x \<notin> set pits" by auto
qed

lemma upstream_rows:
  assumes "length tbl = n" and "\<forall>i\<in>set xs. i < n"
  shows "upstream xs tbl = Inr (concat (map (\<lambda>j. filter (\<lambda>x. x \<noteq> mv) (tbl ! j)) xs))"
proof -
  have ok: "list_all (\<lambda>i. i < length tbl) xs" using assms by (simp add: list_all_iff)
  have "filter (\<lambda>x. x \<noteq> mv) (concat (map (\<lambda>i. tbl ! i) xs)) =
        concat (map (\<lambda>j. filter (\<lambda>x. x \<noteq> mv) (tbl ! j)) xs)"
    by (simp add: filter_concat comp_def)
  with ok show ?thesis by (simp only: upstream_def if_True)
qed

lemma bfs_level_forest:
  assumes ft: "forest_table n pits tbl"
  shows "(\<forall>x\<in>set (bfs_level tbl pits k). x < n) \<and> distinct (bfs_level tbl pits k) \<and>
         bfs_level tbl pits (Suc k) =
           concat (map (\<lambda>j. filter (\<lambda>x. x \<noteq> mv) (tbl ! j)) (bfs_level tbl pits k)) \<and>
         upstream (bfs_level tbl pits k) tbl = Inr (bfs_level tbl pits (Suc k))"
proof (induction k)
  case 0
  from ft have len: "length tbl = n" and "distinct pits" and pin: "\<forall>p\<in>set pits. p < n"
    by (simp_all add: forest_table_def list_all_iff)
  moreover have "upstream pits tbl = Inr (concat (map (\<lambda>j. filter (\<lambda>x. x \<noteq> mv) (tbl ! j)) pits))"
    using len pin by (rule upstream_rows)
  ultimately show ?case by simp
next
  case (Suc k)
  let ?E = "\<lambda>j. filter (\<lambda>x. x \<noteq> mv) (tbl ! j)"
  let ?prev = "bfs_level tbl pits k"
  let ?cur = "bfs_level tbl pits (Suc k)"
  from ft have len: "length tbl = n" by (simp add: forest_table_def)
  from Suc have pn: "\<forall>x\<in>set ?prev. x < n" and pd: "distinct ?prev"
    and cur: "?cur = concat (map ?E ?prev)"
    by blast+
  have cn: "\<forall>x\<in>set ?cur. x < n"
    unfolding cur using pn forest_rows(3) [OF ft] by auto
  have cd: "distinct ?cur"
    unfolding cur
  proof (rule distinct_concat_map [OF pd])
    show "\<forall>x\<in>set ?prev. distinct (?E x)" using pn forest_rows(1) [OF ft] by blast
    show "\<forall>x\<in>set ?prev. \<forall>y\<in>set ?prev. x \<noteq> y \<longrightarrow> set (?E x) \<inter> set (?E y) = {}"
      using pn forest_rows(2) [OF ft] by blast
  qed
  have up: "upstream ?cur tbl = Inr (concat (map ?E ?cur))"
    using len cn by (rule upstream_rows)
  then have "bfs_level tbl pits (Suc (Suc k)) = concat (map ?E ?cur)"
    by (simp del: bfs_level.simps(1))
  with cn cd up show ?case by (simp del: bfs_level.simps)
qed

lemma bfs_level_unique:
  assumes ft: "forest_table n pits tbl"
  shows "x \<in> set (bfs_level tbl pits k) \<Longrightarrow> x \<in> set (bfs_level tbl pits k') \<Longrightarrow> k = k'"
proof (induction k arbitrary: k' x)
  case 0
  show ?case
  proof (cases k')
    case 0
    then show ?thesis by simp
  next
    case (Suc b)
    let ?E = "\<lambda>j. filter (\<lambda>x. x \<noteq> mv) (tbl ! j)"
    from "0.prems"(2) Suc have "x \<in> set (concat (map ?E (bfs_level tbl pits b)))"
      using bfs_level_forest [OF ft, of b] by (simp del: bfs_level.simps)
    then obtain j where "j \<in> set (bfs_level tbl pits b)" and "x \<in> set (?E j)" by auto
    moreover from this have "j < n" using bfs_level_forest [OF ft, of b] by blast
    ultimately have "x \<notin> set pits" using forest_rows(3) [OF ft] by blast
    with "0.prems"(1) show ?thesis by simp
  qed
next
  case (Suc a)
  let ?E = "\<lambda>j. filter (\<lambda>x. x \<noteq> mv) (tbl ! j)"
  from Suc.prems(1) have "x \<in> set (concat (map ?E (bfs_level tbl pits a)))"
    using bfs_level_forest [OF ft, of a] by (simp del: bfs_level.simps)
  then obtain j where ja: "j \<in> set (bfs_level tbl pits a)" and xj: "x \<in> set (?E j)" by auto
  from ja have jn: "j < n" using bfs_level_forest [OF ft, of a] by blast
  show ?case
  proof (cases k')
    case 0
    from xj jn have "x \<notin> set pits" using forest_rows(3) [OF ft] by blast
    with Suc.prems(2) 0 show ?thesis by simp
  next
    case (Suc b)
    from Suc.prems(2) Suc have "x \<in> set (concat (map ?E (bfs_level tbl pits b)))"
      using bfs_level_forest [OF ft, of b] by (simp del: bfs_level.simps)
    then obtain j' where jb: "j' \<in> set (bfs_level tbl pits b)" and xj': "x \<in> set (?E j')"
      by auto
    from jb have jn': "j' < n" using bfs_level_forest [OF ft, of b] by blast
    have "j = j'"
    proof (rule ccontr)
      assume "j \<noteq> j'"
      with forest_rows(2) [OF ft jn] jn' have "set (?E j) \<inter> set (?E j') = {}" by blast
      with xj xj' show False by blast
    qed
    with ja jb have "a = b" using Suc.IH by blast
    with Suc show ?thesis by simp
  qed
qed

lemma bfs_level_stays_empty:
  "bfs_level tbl pits k = [] \<Longrightarrow> bfs_level tbl pits (k + t) = []"
  by (induction t) (simp_all add: upstream_def)


lemma bfs_level_empty:
  assumes ft: "forest_table n pits tbl"
  shows "bfs_level tbl pits n = []"
proof (rule ccontr)
  let ?L = "bfs_level tbl pits"
  assume ne: "?L n \<noteq> []"
  have all_ne: "?L j \<noteq> []" if "j \<le> n" for j
  proof
    assume "?L j = []"
    then have "?L (j + (n - j)) = []" by (rule bfs_level_stays_empty)
    with that ne show False by simp
  qed
  have inj: "inj_on (\<lambda>j. hd (?L j)) {..n}"
  proof (rule inj_onI)
    fix a b assume "a \<in> {..n}" and "b \<in> {..n}" and e: "hd (?L a) = hd (?L b)"
    then have "?L a \<noteq> []" and "?L b \<noteq> []" using all_ne by simp_all
    then have "hd (?L a) \<in> set (?L a)" and "hd (?L b) \<in> set (?L b)" by simp_all
    with e show "a = b" using bfs_level_unique [OF ft, of "hd (?L a)" a b] by simp
  qed
  have "(\<lambda>j. hd (?L j)) ` {..n} \<subseteq> {..<n}"
  proof
    fix x assume "x \<in> (\<lambda>j. hd (?L j)) ` {..n}"
    then obtain j where j: "j \<le> n" and x: "x = hd (?L j)" by auto
    from all_ne [OF j] have "hd (?L j) \<in> set (?L j)" by simp
    then have "hd (?L j) < n" using bfs_level_forest [OF ft, of j] by blast
    with x show "x \<in> {..<n}" by simp
  qed
  with inj have "card {..n} \<le> card {..<n}" by (intro card_inj_on_le) simp_all
  then show False by simp
qed

lemma network_tree_loop_run:
  assumes "\<forall>t<j. upstream (bfs_level tbl pits (k + t)) tbl = Inr (bfs_level tbl pits (Suc (k + t)))
                  \<and> bfs_level tbl pits (Suc (k + t)) \<noteq> []"
    and "upstream (bfs_level tbl pits (k + j)) tbl = Inr []"
  shows "network_tree_loop tbl acc (bfs_level tbl pits k) =
         Some (Inr (acc @ map (\<lambda>t. bfs_level tbl pits (Suc (k + t))) [0..<j]))"
  using assms
proof (induction j arbitrary: k acc)
  case 0
  then show ?case by (subst network_tree_loop.simps) simp
next
  case (Suc j)
  let ?L = "bfs_level tbl pits"
  from Suc.prems(1) have first: "upstream (?L k) tbl = Inr (?L (Suc k))" "?L (Suc k) \<noteq> []"
    by (auto dest: spec [of _ 0])
  have shifted: "\<forall>t<j. upstream (?L (Suc k + t)) tbl = Inr (?L (Suc (Suc k + t)))
                  \<and> ?L (Suc (Suc k + t)) \<noteq> []"
  proof (intro allI impI)
    fix t assume "t < j"
    then have "Suc t < Suc j" by simp
    with Suc.prems(1) have "upstream (?L (k + Suc t)) tbl = Inr (?L (Suc (k + Suc t)))
                  \<and> ?L (Suc (k + Suc t)) \<noteq> []" by blast
    then show "upstream (?L (Suc k + t)) tbl = Inr (?L (Suc (Suc k + t)))
                  \<and> ?L (Suc (Suc k + t)) \<noteq> []" by simp
  qed
  have last: "upstream (?L (Suc k + j)) tbl = Inr []" using Suc.prems(2) by simp
  have "network_tree_loop tbl acc (?L k) =
        network_tree_loop tbl (acc @ [?L (Suc k)]) (?L (Suc k))"
    using first by (subst network_tree_loop.simps) (simp del: bfs_level.simps)
  also have "\<dots> = Some (Inr ((acc @ [?L (Suc k)]) @ map (\<lambda>t. ?L (Suc (Suc k + t))) [0..<j]))"
    by (rule Suc.IH [OF shifted last])
  also have "(acc @ [?L (Suc k)]) @ map (\<lambda>t. ?L (Suc (Suc k + t))) [0..<j] =
             acc @ map (\<lambda>t. ?L (Suc (k + t))) [0..<Suc j]"
    unfolding map_upt_Suc by simp
  finally show ?case .
qed

lemma put_all_const:
  assumes "length vals = length idxs" and "\<forall>v\<in>set vals. v = c"
    and "\<forall>i\<in>set idxs. i < length arr"
  shows "length (put_all arr idxs vals) = length arr \<and>
         (\<forall>i<length arr. put_all arr idxs vals ! i = (if i \<in> set idxs then c else arr ! i))"
  using assms
proof (induction vals idxs arbitrary: arr rule: list_induct2)
  case Nil
  then show ?case by (simp add: put_all_def)
next
  case (Cons v vals i idxs)
  have unf: "put_all arr (i # idxs) (v # vals) = put_all (arr[i := v]) idxs vals"
    by (simp add: put_all_def)
  have v: "v = c" using Cons.prems(1) by simp
  have "length (put_all (arr[i := v]) idxs vals) = length (arr[i := v]) \<and>
        (\<forall>k<length (arr[i := v]).
            put_all (arr[i := v]) idxs vals ! k = (if k \<in> set idxs then c else arr[i := v] ! k))"
    using Cons.prems by (intro Cons.IH) simp_all
  then show ?case unfolding unf using v by (auto simp: nth_list_update)
qed

lemma loop_indices_loop_run:
  assumes ft: "forest_table n pits tbl"
  shows "\<forall>t<j. bfs_level tbl pits (Suc (k + t)) \<noteq> [] \<Longrightarrow>
         bfs_level tbl pits (Suc (k + j)) = [] \<Longrightarrow>
         length F = n \<Longrightarrow>
         \<forall>i<n. F ! i \<longleftrightarrow> (\<exists>k'\<le>k. i \<in> set (bfs_level tbl pits k')) \<Longrightarrow>
         \<exists>fin. loop_indices_loop tbl F (bfs_level tbl pits k) = Some (Inr fin) \<and>
               length fin = n \<and>
               (\<forall>i<n. fin ! i \<longleftrightarrow> (\<exists>k'\<le>k + j. i \<in> set (bfs_level tbl pits k')))"
proof (induction j arbitrary: k F)
  case 0
  have "upstream (bfs_level tbl pits k) tbl = Inr (bfs_level tbl pits (Suc k))"
    using bfs_level_forest [OF ft, of k] by blast
  moreover have "bfs_level tbl pits (Suc k) = []"
    using "0.prems"(2) by (simp del: bfs_level.simps)
  ultimately have "upstream (bfs_level tbl pits k) tbl = Inr []" by (simp only:)
  then have "loop_indices_loop tbl F (bfs_level tbl pits k) = Some (Inr F)"
    by (subst loop_indices_loop.simps) (simp del: bfs_level.simps)
  with "0.prems"(3,4) show ?case by (simp del: bfs_level.simps)
next
  case (Suc j)
  let ?L = "bfs_level tbl pits"
  let ?nxt = "?L (Suc k)"
  let ?F' = "put_all F ?nxt (map (\<lambda>i. \<not> F ! i) ?nxt)"
  have up: "upstream (?L k) tbl = Inr ?nxt"
    using bfs_level_forest [OF ft, of k] by blast
  have ne: "?nxt \<noteq> []"
    using Suc.prems(1) by (auto simp del: bfs_level.simps dest: spec [of _ 0])
  have nb: "\<forall>i\<in>set ?nxt. i < n" using bfs_level_forest [OF ft, of "Suc k"] by blast
  have inb: "\<forall>i\<in>set ?nxt. i < length F" using nb Suc.prems(3) by simp
  have fresh: "\<not> F ! i" if "i \<in> set ?nxt" for i
  proof
    assume f: "F ! i"
    from that nb have il: "i < n" by blast
    from f il Suc.prems(4) obtain k' where k': "k' \<le> k" and "i \<in> set (?L k')" by blast
    with that have "Suc k = k'" using bfs_level_unique [OF ft] by blast
    with k' show False by simp
  qed
  have vals: "\<forall>v\<in>set (map (\<lambda>i. \<not> F ! i) ?nxt). v = True"
    using fresh by (auto simp del: bfs_level.simps)
  have pa: "length ?F' = length F \<and>
            (\<forall>i<length F. ?F' ! i = (if i \<in> set ?nxt then True else F ! i))"
    by (rule put_all_const [OF _ vals inb]) (simp del: bfs_level.simps)
  have step: "loop_indices_loop tbl F (?L k) = loop_indices_loop tbl ?F' ?nxt"
    using up ne inb
    by (subst loop_indices_loop.simps) (simp add: list_all_iff del: bfs_level.simps)
  have "\<exists>fin. loop_indices_loop tbl ?F' (?L (Suc k)) = Some (Inr fin) \<and>
               length fin = n \<and>
               (\<forall>i<n. fin ! i \<longleftrightarrow> (\<exists>k'\<le>Suc k + j. i \<in> set (?L k')))"
  proof (rule Suc.IH)
    show "\<forall>t<j. ?L (Suc (Suc k + t)) \<noteq> []"
    proof (intro allI impI)
      fix t assume "t < j"
      then have "Suc t < Suc j" by simp
      with Suc.prems(1) have "?L (Suc (k + Suc t)) \<noteq> []" by blast
      then show "?L (Suc (Suc k + t)) \<noteq> []" by (simp del: bfs_level.simps)
    qed
    show "?L (Suc (Suc k + j)) = []" using Suc.prems(2) by (simp del: bfs_level.simps)
    show "length ?F' = n" using pa Suc.prems(3) by (simp del: bfs_level.simps)
    show "\<forall>i<n. ?F' ! i \<longleftrightarrow> (\<exists>k'\<le>Suc k. i \<in> set (?L k'))"
    proof (intro allI impI)
      fix i assume il: "i < n"
      then have "?F' ! i = (if i \<in> set ?nxt then True else F ! i)"
        using pa Suc.prems(3) by (simp del: bfs_level.simps)
      also have "\<dots> \<longleftrightarrow> i \<in> set (?L (Suc k)) \<or> (\<exists>k'\<le>k. i \<in> set (?L k'))"
        using il Suc.prems(4) by (simp del: bfs_level.simps)
      also have "\<dots> \<longleftrightarrow> (\<exists>k'\<le>Suc k. i \<in> set (?L k'))"
        by (auto simp: le_Suc_eq simp del: bfs_level.simps)
      finally show "?F' ! i \<longleftrightarrow> (\<exists>k'\<le>Suc k. i \<in> set (?L k'))" .
    qed
  qed
  then show ?case unfolding step by (simp del: bfs_level.simps)
qed

lemma tree_and_loops:
  assumes ft: "forest_table (length ds) pits tbl"
    and pits: "pits = pit_indices ds"
    and nomv: "mv \<notin> set ds"
  shows "\<exists>m. network_tree pits tbl = Some (Inr (map (bfs_level tbl pits) [0..<Suc m])) \<and>
             loop_indices ds tbl =
               Some (Inr (filter (\<lambda>i. \<not> (\<exists>k\<le>m. i \<in> set (bfs_level tbl pits k)))
                            [0..<length ds])) \<and>
             (\<forall>k. m < k \<longrightarrow> bfs_level tbl pits k = [])"
proof -
  let ?n = "length ds"
  let ?L = "bfs_level tbl pits"
  have step: "upstream (?L k) tbl = Inr (?L (Suc k))" for k
    using bfs_level_forest [OF ft, of k] by blast
  have "?L ?n = []" by (rule bfs_level_empty [OF ft])
  then have "?L (?n + 1) = []" by (rule bfs_level_stays_empty)
  then have ex: "\<exists>m. ?L (Suc m) = []" by (auto simp del: bfs_level.simps)
  define m where "m = (LEAST m. ?L (Suc m) = [])"
  have em: "?L (Suc m) = []" unfolding m_def using ex by (rule LeastI_ex)
  have ne: "\<forall>t<m. ?L (Suc t) \<noteq> []" unfolding m_def using not_less_Least by blast
  have beyond: "\<forall>k. m < k \<longrightarrow> ?L k = []"
  proof (intro allI impI)
    fix k assume "m < k"
    then obtain t where "k = Suc m + t" using less_iff_Suc_add by auto
    then show "?L k = []" using bfs_level_stays_empty [OF em] by simp
  qed
  have tree: "network_tree pits tbl = Some (Inr (map ?L [0..<Suc m]))"
  proof -
    have a: "\<forall>t<m. upstream (?L (0 + t)) tbl = Inr (?L (Suc (0 + t))) \<and> ?L (Suc (0 + t)) \<noteq> []"
      using step ne by (simp del: bfs_level.simps)
    have b: "upstream (?L (0 + m)) tbl = Inr []"
      using step [of m] em by (simp del: bfs_level.simps)
    have "network_tree_loop tbl [pits] (?L 0) =
          Some (Inr ([pits] @ map (\<lambda>t. ?L (Suc (0 + t))) [0..<m]))"
      by (rule network_tree_loop_run [OF a b])
    moreover have "[pits] @ map (\<lambda>t. ?L (Suc (0 + t))) [0..<m] = map ?L [0..<Suc m]"
      unfolding map_upt_Suc by (simp del: bfs_level.simps(2))
    ultimately show ?thesis by (simp add: network_tree_def del: bfs_level.simps(2) upt_Suc)
  qed
  have loops: "loop_indices ds tbl =
               Some (Inr (filter (\<lambda>i. \<not> (\<exists>k\<le>m. i \<in> set (?L k))) [0..<?n]))"
  proof -
    let ?F0 = "map (\<lambda>x. x = mv) ds"
    let ?F1 = "if pits \<noteq> [] then put_all ?F0 pits (map (\<lambda>_. True) pits) else ?F0"
    have f0: "\<not> ?F0 ! i" if "i < ?n" for i
    proof -
      have "ds ! i \<in> set ds" using that by simp
      with nomv have "ds ! i \<noteq> mv" by metis
      with that show ?thesis by simp
    qed
    have pin: "\<forall>p\<in>set pits. p < length ?F0"
      using ft by (simp add: forest_table_def list_all_iff)
    have pa: "length (put_all ?F0 pits (map (\<lambda>_. True) pits)) = length ?F0 \<and>
          (\<forall>i<length ?F0. put_all ?F0 pits (map (\<lambda>_. True) pits) ! i =
              (if i \<in> set pits then True else ?F0 ! i))"
      by (rule put_all_const [OF _ _ pin]) simp_all
    have len1: "length ?F1 = ?n" using pa by simp
    have f1: "\<forall>i<?n. ?F1 ! i \<longleftrightarrow> (\<exists>k'\<le>0. i \<in> set (?L k'))"
    proof (intro allI impI)
      fix i assume il: "i < ?n"
      show "?F1 ! i \<longleftrightarrow> (\<exists>k'\<le>0. i \<in> set (?L k'))"
      proof (cases "pits = []")
        case True
        with f0 [OF il] show ?thesis by simp
      next
        case False
        have "put_all ?F0 pits (map (\<lambda>_. True) pits) ! i = (if i \<in> set pits then True else ?F0 ! i)"
          using pa il by simp
        with False f0 [OF il] show ?thesis by simp
      qed
    qed
    have a: "\<forall>t<m. ?L (Suc (0 + t)) \<noteq> []" using ne by (simp del: bfs_level.simps)
    have b: "?L (Suc (0 + m)) = []" using em by (simp del: bfs_level.simps)
    from loop_indices_loop_run [OF ft a b len1 f1] obtain fin where
      run: "loop_indices_loop tbl ?F1 (?L 0) = Some (Inr fin)"
      and lf: "length fin = ?n"
      and fin: "\<forall>i<?n. fin ! i \<longleftrightarrow> (\<exists>k'\<le>0 + m. i \<in> set (?L k'))"
      by blast
    have "filter (\<lambda>i. \<not> fin ! i) [0..<length fin] =
          filter (\<lambda>i. \<not> (\<exists>k\<le>m. i \<in> set (?L k))) [0..<?n]"
      unfolding lf using fin by (intro filter_cong) (simp_all del: bfs_level.simps)
    moreover have "loop_indices ds tbl = Some (Inr (filter (\<lambda>i. \<not> fin ! i) [0..<length fin]))"
      using run unfolding loop_indices_def Let_def pits [symmetric]
      by (simp del: bfs_level.simps(2))
    ultimately show ?thesis by simp
  qed
  from tree loops beyond show ?thesis by blast
qed

lemma in_range_no_mv: "in_range ds \<Longrightarrow> length ds \<le> mv \<Longrightarrow> mv \<notin> set ds"
  by (auto simp: in_range_def list_all_iff)


section \<open>Loop detection\<close>

lemma put_all_other:
  "length (put_all arr idxs vals) = length arr \<and>
   (i \<notin> set idxs \<longrightarrow> put_all arr idxs vals ! i = arr ! i)"
proof (induction idxs arbitrary: vals arr)
  case Nil
  show ?case by (simp add: put_all_def)
next
  case (Cons j idxs)
  show ?case
  proof (cases vals)
    case Nil
    then show ?thesis by (simp add: put_all_def)
  next
    case (Cons v rest)
    have unf: "put_all arr (j # idxs) (v # rest) = put_all (arr[j := v]) idxs rest"
      by (simp add: put_all_def)
    from Cons.IH [of "arr[j := v]" rest] show ?thesis
      unfolding Cons unf by auto
  qed
qed

lemma bfs_level_shift:
  "upstream idxs tbl = Inr u \<Longrightarrow> bfs_level tbl u k = bfs_level tbl idxs (Suc k)"
  by (induction k) simp_all

lemma loop_indices_loop_keeps:
  assumes "loop_indices_loop tbl F idxs = Some r"
  shows "(\<forall>k. i \<notin> set (bfs_level tbl idxs (Suc k))) \<longrightarrow> i < length F \<longrightarrow> F ! i \<longrightarrow>
         (\<forall>fin. r = Inr fin \<longrightarrow> i < length fin \<and> fin ! i)"
  using assms
proof (induction rule: loop_indices_loop.raw_induct)
  case (1 loop tbl F idxs r)
  show ?case
  proof (intro impI allI)
    fix fin
    assume never: "\<forall>k. i \<notin> set (bfs_level tbl idxs (Suc k))"
      and il: "i < length F" and fi: "F ! i" and r: "r = Inr fin"
    show "i < length fin \<and> fin ! i"
    proof (cases "upstream idxs tbl")
      case (Inl e)
      with "1.hyps" r show ?thesis by simp
    next
      case (Inr u)
      show ?thesis
      proof (cases "u = []")
        case True
        with "1.hyps" Inr r il fi show ?thesis by simp
      next
        case False
        let ?F' = "put_all F u (map (\<lambda>i. \<not> F ! i) u)"
        from "1.hyps" Inr False r have inb: "list_all (\<lambda>i. i < length F) u"
          by (auto split: if_splits)
        with "1.hyps" Inr False have run: "loop tbl ?F' u = Some r" by simp
        have "bfs_level tbl idxs (Suc 0) = u" using Inr by simp
        with never have "i \<notin> set u" by metis
        then have "length ?F' = length F" and "?F' ! i = F ! i"
          using put_all_other [of F u "map (\<lambda>i. \<not> F ! i) u" i] by simp_all
        with il fi have "i < length ?F'" and "?F' ! i" by simp_all
        moreover have "loop_indices_loop tbl ?F' u = Some r"
          using "1.prems" Inr False inb by (subst (asm) loop_indices_loop.simps) simp
        moreover have "\<forall>k. i \<notin> set (bfs_level tbl u (Suc k))"
          using never unfolding bfs_level_shift [OF Inr] by blast
        ultimately show ?thesis using "1.IH" [OF run] r by blast
      qed
    qed
  qed
qed (rule assms)

lemma loop_indices_sentinel_cell:
  assumes il: "i < length ds" and mvt: "ds ! i = mv"
    and never: "\<forall>k. i \<notin> set (bfs_level tbl (pit_indices ds) (Suc k))"
    and res: "loop_indices ds tbl = Some (Inr loops)"
  shows "i \<notin> set loops"
proof -
  let ?F0 = "map (\<lambda>x. x = mv) ds"
  let ?pits = "pit_indices ds"
  let ?F1 = "if ?pits \<noteq> [] then put_all ?F0 ?pits (map (\<lambda>_. True) ?pits) else ?F0"
  have f0: "?F0 ! i" using il mvt by simp
  have pin: "\<forall>p\<in>set ?pits. p < length ?F0"
  proof
    fix p assume "p \<in> set ?pits"
    then obtain x where "x < length ds" and "p = u32 x" by (auto simp: pit_indices_def)
    moreover have "u32 x \<le> x" by (simp add: u32_def)
    ultimately show "p < length ?F0" by simp
  qed
  have pa: "length (put_all ?F0 ?pits (map (\<lambda>_. True) ?pits)) = length ?F0 \<and>
        (\<forall>k<length ?F0. put_all ?F0 ?pits (map (\<lambda>_. True) ?pits) ! k =
            (if k \<in> set ?pits then True else ?F0 ! k))"
    by (rule put_all_const [OF _ _ pin]) simp_all
  have l1: "i < length ?F1" using pa il by simp
  have f1: "?F1 ! i" using pa il f0 by simp
  from res obtain fin where run: "loop_indices_loop tbl ?F1 ?pits = Some (Inr fin)"
    and loops: "loops = filter (\<lambda>i. \<not> fin ! i) [0..<length fin]"
    unfolding loop_indices_def Let_def by (auto split: option.splits sum.splits)
  from loop_indices_loop_keeps [OF run, of i] never l1 f1 have "fin ! i" by blast
  then show ?thesis unfolding loops by simp
qed

text \<open>
  C3, as the source behaves. For every downstream array that is not empty, whose targets
  are cells and which has fewer cells than the missing value, the builder returns an
  upstream table, and with it \<^verbatim>\<open>loop_indices\<close> returns, in ascending order, exactly the
  cells that are in no frontier of the breadth-first expansion from the pits along the
  upstream table. A cell whose downstream target is the missing value is flagged as not
  on a loop before the expansion starts: whenever \<^verbatim>\<open>loop_indices\<close> returns, for any
  downstream array and any table, such a cell is not among the loop cells if the
  expansion never visits it, that is, if it is in none of the frontiers after the pits.
\<close>

theorem loop_indices_unreached:
  "(ds \<noteq> [] \<and> in_range ds \<and> length ds \<le> mv \<longrightarrow>
      (\<exists>tbl. p_idxs_us ds = Inr tbl \<and>
         loop_indices ds tbl =
           Some (Inr (filter (\<lambda>i. \<forall>k. i \<notin> set (bfs_level tbl (pit_indices ds) k))
                        [0..<length ds])))) \<and>
   (i < length ds' \<and> ds' ! i = mv \<and>
      (\<forall>k. i \<notin> set (bfs_level tbl' (pit_indices ds') (Suc k))) \<and>
      loop_indices ds' tbl' = Some (Inr loops) \<longrightarrow> i \<notin> set loops)"
proof -
  have a: "\<exists>tbl. p_idxs_us ds = Inr tbl \<and>
         loop_indices ds tbl =
           Some (Inr (filter (\<lambda>i. \<forall>k. i \<notin> set (bfs_level tbl (pit_indices ds) k))
                        [0..<length ds]))"
    if h: "ds \<noteq> [] \<and> in_range ds \<and> length ds \<le> mv"
  proof -
    let ?n = "length ds"
    define pits where "pits = pit_indices ds"
    from h have ne: "ds \<noteq> []" and rng: "in_range ds" and small: "?n \<le> mv" by blast+
    from p_idxs_us_forest [OF ne small] obtain tbl where
      built: "p_idxs_us ds = Inr tbl" and ft: "forest_table ?n pits tbl"
      unfolding pits_def by blast
    let ?L = "bfs_level tbl pits"
    have nomv: "mv \<notin> set ds" by (rule in_range_no_mv [OF rng small])
    from tree_and_loops [OF ft pits_def nomv] obtain m where
      loops: "loop_indices ds tbl =
                  Some (Inr (filter (\<lambda>i. \<not> (\<exists>k\<le>m. i \<in> set (?L k))) [0..<?n]))"
      and beyond: "\<forall>k. m < k \<longrightarrow> ?L k = []"
      by blast
    have "filter (\<lambda>i. \<not> (\<exists>k\<le>m. i \<in> set (?L k))) [0..<?n] =
          filter (\<lambda>i. \<forall>k. i \<notin> set (?L k)) [0..<?n]"
    proof (rule filter_cong [OF refl])
      fix i assume "i \<in> set [0..<?n]"
      show "(\<not> (\<exists>k\<le>m. i \<in> set (?L k))) = (\<forall>k. i \<notin> set (?L k))"
      proof
        assume n: "\<not> (\<exists>k\<le>m. i \<in> set (?L k))"
        show "\<forall>k. i \<notin> set (?L k)"
        proof
          fix k
          show "i \<notin> set (?L k)"
          proof
            assume mem: "i \<in> set (?L k)"
            then have "?L k \<noteq> []" by auto
            with beyond have "k \<le> m" by (meson not_less)
            with mem n show False by blast
          qed
        qed
      next
        assume "\<forall>k. i \<notin> set (?L k)"
        then show "\<not> (\<exists>k\<le>m. i \<in> set (?L k))" by blast
      qed
    qed
    with loops built show ?thesis unfolding pits_def by auto
  qed
  have b: "i \<notin> set loops"
    if "i < length ds' \<and> ds' ! i = mv \<and>
      (\<forall>k. i \<notin> set (bfs_level tbl' (pit_indices ds') (Suc k))) \<and>
      loop_indices ds' tbl' = Some (Inr loops)"
    using that loop_indices_sentinel_cell [of i ds' tbl' loops] by blast
  from a b show ?thesis by blast
qed

theorem loop_indices_unreached_witness:
  "[1, 2, 2, 4, 3] \<noteq> ([] :: nat list) \<and> in_range [1, 2, 2, 4, 3] \<and>
   length [1, 2, 2, 4, 3 :: nat] \<le> mv \<and>
   (\<exists>tbl. p_idxs_us [1, 2, 2, 4, 3] = Inr tbl \<and>
      loop_indices [1, 2, 2, 4, 3] tbl =
        Some (Inr (filter (\<lambda>i. \<forall>k. i \<notin> set (bfs_level tbl (pit_indices [1, 2, 2, 4, 3]) k))
                     [0..<length [1, 2, 2, 4, 3 :: nat]]))) \<and>
   p_idxs_us [1, 2, 2, 4, 3] = Inr [[mv], [0], [1], [4], [3]] \<and>
   loop_indices [1, 2, 2, 4, 3] [[mv], [0], [1], [4], [3]] = Some (Inr [3, 4]) \<and>
   loop_indices [1, mv, 0] [[mv], [mv], [1]] = Some (Inr [0, 2]) \<and> 1 \<notin> set [0, 2 :: nat]"
proof -
  have v: "[1, 2, 2, 4, 3] \<noteq> ([] :: nat list) \<and> in_range [1, 2, 2, 4, 3] \<and>
           length [1, 2, 2, 4, 3 :: nat] \<le> mv"
    by (simp add: in_range_def mv_def)
  have t: "p_idxs_us [1, 2, 2, 4, 3] = Inr [[mv], [0], [1], [4], [3]]"
    by (simp add: p_idxs_us_def n_upstream_def u32_def reshape_def)
  have p: "pit_indices [1, 2, 2, 4, 3] = [2]"
    by (simp add: pit_indices_def u32_def)
  have l: "loop_indices [1, 2, 2, 4, 3] [[mv], [0], [1], [4], [3]] = Some (Inr [3, 4])"
    unfolding loop_indices_def p Let_def
    apply (subst loop_indices_loop.simps, simp add: upstream_def mv_def put_all_def)
    apply (subst loop_indices_loop.simps, simp add: upstream_def mv_def put_all_def)
    apply (subst loop_indices_loop.simps, simp add: upstream_def mv_def put_all_def)
    done
  have q: "pit_indices [1, mv, 0] = []"
    by (simp add: pit_indices_def u32_def mv_def)
  have s: "loop_indices [1, mv, 0] [[mv], [mv], [1]] = Some (Inr [0, 2])"
    unfolding loop_indices_def q Let_def
    by (subst loop_indices_loop.simps) (simp add: upstream_def mv_def)
  have never: "\<forall>k. (1::nat) \<notin> set (bfs_level [[mv], [mv], [1]] (pit_indices [1, mv, 0]) (Suc k))"
  proof
    fix k
    have "bfs_level [[mv], [mv], [1]] [] (0 + Suc k) = []"
      by (rule bfs_level_stays_empty) simp
    then show "(1::nat) \<notin> set (bfs_level [[mv], [mv], [1]] (pit_indices [1, mv, 0]) (Suc k))"
      unfolding q by (simp del: bfs_level.simps)
  qed
  have h: "(1::nat) < length [1, mv, 0] \<and> [1, mv, 0] ! 1 = mv \<and>
           (\<forall>k. (1::nat) \<notin> set (bfs_level [[mv], [mv], [1]] (pit_indices [1, mv, 0]) (Suc k))) \<and>
           loop_indices [1, mv, 0] [[mv], [mv], [1]] = Some (Inr [0, 2])"
    using s never by simp
  from loop_indices_unreached [of "[1, 2, 2, 4, 3]" 1 "[1, mv, 0]" "[[mv], [mv], [1]]" "[0, 2]"] v h
  have "(\<exists>tbl. p_idxs_us [1, 2, 2, 4, 3] = Inr tbl \<and>
      loop_indices [1, 2, 2, 4, 3] tbl =
        Some (Inr (filter (\<lambda>i. \<forall>k. i \<notin> set (bfs_level tbl (pit_indices [1, 2, 2, 4, 3]) k))
                     [0..<length [1, 2, 2, 4, 3 :: nat]]))) \<and> 1 \<notin> set [0, 2 :: nat]"
    by blast
  with v t l s show ?thesis by blast
qed

text \<open>
  C3, as the specification states it, fails: the only cell of the downstream array
  \<open>[mv]\<close> has the missing value as its downstream target, and it is not reported as a
  loop cell.
\<close>

theorem loop_indices_sentinel_not_reported:
  "loop_indices [mv] [[]] = Some (Inr [])"
proof -
  have q: "pit_indices [mv] = []" by (simp add: pit_indices_def mv_def)
  show ?thesis
    unfolding loop_indices_def q Let_def
    by (subst loop_indices_loop.simps) (simp add: upstream_def)
qed
section \<open>The scenario without a pit\<close>

text \<open>
  C4, as the source behaves: for the downstream array \<open>[1, 0]\<close> the upstream table is
  \<open>[[1], [0]]\<close>, pit detection returns no index, loop detection returns \<open>[0, 1]\<close>,
  and the network tree has exactly one level, the empty array of pits, because
  \<^verbatim>\<open>network_tree\<close> appends \<^verbatim>\<open>idxs_pits\<close> before it looks at its size.
\<close>

theorem scenario_no_pit:
  "p_idxs_us [1, 0] = Inr [[1], [0]] \<and>
   pit_indices [1, 0] = [] \<and>
   loop_indices [1, 0] [[1], [0]] = Some (Inr [0, 1]) \<and>
   network_tree (pit_indices [1, 0]) [[1], [0]] = Some (Inr [[]])"
proof -
  have tbl: "p_idxs_us [1, 0] = Inr [[1], [0]]"
    by (simp add: p_idxs_us_def n_upstream_def u32_def reshape_def)
  have pits: "pit_indices [1, 0] = []"
    by (simp add: pit_indices_def)
  have loops: "loop_indices [1, 0] [[1], [0]] = Some (Inr [0, 1])"
    unfolding loop_indices_def
    by (subst loop_indices_loop.simps) (simp add: upstream_def pit_indices_def mv_def)
  have tree: "network_tree [] [[1], [0]] = Some (Inr [[]])"
    unfolding network_tree_def
    by (subst network_tree_loop.simps) (simp add: upstream_def)
  from tbl pits loops tree show ?thesis by simp
qed

text \<open>
  C4, as the specification states it, fails: the network tree of \<open>[1, 0]\<close> is not the
  empty sequence of levels.
\<close>

theorem scenario_no_pit_tree_not_empty:
  "network_tree (pit_indices [1, 0]) [[1], [0]] \<noteq> Some (Inr [])"
proof -
  have "network_tree [] [[1], [0]] = Some (Inr [[]])"
    unfolding network_tree_def
    by (subst network_tree_loop.simps) (simp add: upstream_def)
  then show ?thesis by (simp add: pit_indices_def)
qed

end
